theory Spec2Isabelle
  imports Main "HOL-Library.Word" "HOL-Library.Sublist"
begin

section \<open>Data model of \<^verbatim>\<open>huffman.cpp\<close>\<close>

text \<open>
  A file is a sequence of bytes; a C++ \<^verbatim>\<open>char\<close> read from or written to a binary stream
  is one byte. The in-memory strings of the program (\<^verbatim>\<open>str\<close>, \<^verbatim>\<open>encoded\<close>,
  \<^verbatim>\<open>bitString\<close>, the values of \<^verbatim>\<open>huffmanCode\<close>) only ever hold text and are kept as
  strings. The field \<^verbatim>\<open>freq\<close> is a C++ \<^verbatim>\<open>int\<close>: a 32-bit word read as two's
  complement by the comparison. A count beyond \<open>2^31 - 1\<close> overflows, which C++ leaves
  undefined; the word wraps around, as the usual targets do, and no result below depends
  on the value of a weight except where it says so.
\<close>

type_synonym byte = "8 word"

text \<open>
  \<^verbatim>\<open>class Node { char ch; int freq; Node* left; Node* right; }\<close>.
  A value of type \<open>node\<close> is what a \<^verbatim>\<open>Node*\<close> points to: \<open>Null\<close> is
  \<^verbatim>\<open>nullptr\<close>. Every node of the program is allocated once and owned by one parent, so
  there is no sharing to keep track of.
\<close>

datatype node = Null | Node (ch: byte) (freq: "32 word") (left: node) (right: node)

text \<open>
  The program reports a failure by a message on \<^verbatim>\<open>cerr\<close> and an early return. The
  constructors are named after the error kinds of the specification:
  \<^item> \<open>EmptyInputError\<close>: "Error: Input file is empty or unreadable." (compress);
  \<^item> \<open>TruncatedTreeError\<close>: "Error: Failed to read Huffman tree from file." (decompress);
  \<^item> \<open>TruncatedStreamError\<close>: "Error: Unexpected end of file or read error after tree."
    (decompress);
  \<^item> \<open>InvalidArgument\<close>: the exception \<^verbatim>\<open>std::invalid_argument\<close> of the constructor
    \<^verbatim>\<open>bitset<8>(string)\<close> on a character other than 0 and 1;
  \<^item> \<open>NullDereference\<close>: the tree walk of decompress reads \<^verbatim>\<open>current->left\<close> with
    \<^verbatim>\<open>current == nullptr\<close> (undefined behaviour; the process crashes).
  The program has no branch that reports a bad pad count or a bad payload.
\<close>

datatype error =
    EmptyInputError
  | TruncatedTreeError
  | TruncatedStreamError
  | InvalidArgument
  | NullDereference

section \<open>The priority queue\<close>

text \<open>
  \<^verbatim>\<open>struct Compare { bool operator()(Node* a, Node* b) { return a->freq > b->freq; } }\<close>
\<close>

definition Compare :: "node \<Rightarrow> node \<Rightarrow> bool" where
  "Compare a b = (sint (freq b) < sint (freq a))"

text \<open>
  \<^verbatim>\<open>priority_queue<Node*, vector<Node*>, Compare> pq\<close>. The queue is the list of the
  nodes it holds; \<^verbatim>\<open>push\<close> appends. \<^verbatim>\<open>top\<close> returns a node \<open>a\<close> of the queue such
  that \<open>Compare a b\<close> holds for no node \<open>b\<close> of the queue. When several nodes qualify
  (equal \<^verbatim>\<open>freq\<close>), which one is returned depends on the heap layout of the library and
  on the iteration order of \<^verbatim>\<open>unordered_map\<close>, both left open by the language: the model
  takes the choice as a parameter, a number \<open>k\<close> that selects one of the candidates.
  \<open>splits pq\<close> lists the ways of taking one node out of the queue, each with the nodes
  that stay; the \<open>candidates\<close> are those where no node of the queue comes before the
  node taken. \<open>pq_pop k pq\<close> is \<^verbatim>\<open>x = pq.top(); pq.pop();\<close>, returning \<open>x\<close> and the
  queue without it. On an empty queue the source would be undefined, and so is the model;
  neither gets there.
\<close>

fun splits :: "'a list \<Rightarrow> ('a \<times> 'a list) list" where
  "splits [] = []"
| "splits (x # xs) = (x, xs) # map (\<lambda>(y, ys). (y, x # ys)) (splits xs)"

definition candidates :: "node list \<Rightarrow> (node \<times> node list) list" where
  "candidates pq = filter (\<lambda>(a, rest). list_all (\<lambda>b. \<not> Compare a b) pq) (splits pq)"

definition pq_pop :: "nat \<Rightarrow> node list \<Rightarrow> node \<times> node list" where
  "pq_pop k pq = candidates pq ! (k mod length (candidates pq))"

section \<open>Compression\<close>

text \<open>
  \<^verbatim>\<open>unordered_map<char, int> freqMap; while (in.get(ch)) freqMap[ch]++;\<close>
  The table is an association list with one entry per key; \<^verbatim>\<open>freqMap[ch]\<close> creates a
  missing entry with the value 0 before the increment.
\<close>

fun incr :: "byte \<Rightarrow> (byte \<times> 32 word) list \<Rightarrow> (byte \<times> 32 word) list" where
  "incr c [] = [(c, 1)]"
| "incr c ((k, n) # kvs) = (if k = c then (k, n + 1) # kvs else (k, n) # incr c kvs)"

definition freqMap :: "byte list \<Rightarrow> (byte \<times> 32 word) list" where
  "freqMap input = foldl (\<lambda>m c. incr c m) [] input"

text \<open>\<^verbatim>\<open>for (auto& pair : freqMap) pq.push(new Node(pair.first, pair.second));\<close>\<close>

definition initial_pq :: "byte list \<Rightarrow> node list" where
  "initial_pq input = map (\<lambda>(c, n). Node c n Null Null) (freqMap input)"

text \<open>
  The body of \<^verbatim>\<open>while (pq.size() > 1)\<close>: two nodes are taken out and their parent is
  pushed. \<open>k1\<close> and \<open>k2\<close> resolve the ties of the two calls of \<^verbatim>\<open>top\<close>.
\<close>

definition merge_step :: "nat \<Rightarrow> nat \<Rightarrow> node list \<Rightarrow> node list" where
  "merge_step k1 k2 pq =
     (case pq_pop k1 pq of (l, pq1) \<Rightarrow>
      case pq_pop k2 pq1 of (r, pq2) \<Rightarrow>
        pq2 @ [Node 0 (freq l + freq r) l r])"

definition tie :: "nat list \<Rightarrow> nat \<Rightarrow> nat" where
  "tie ties i = (if i < length ties then ties ! i else 0)"

lemma splits_length: "(a, rest) \<in> set (splits pq) \<Longrightarrow> Suc (length rest) = length pq"
  by (induction pq arbitrary: a rest) auto

lemma splits_decomp:
  "(a, rest) \<in> set (splits pq) \<Longrightarrow> \<exists>ys zs. pq = ys @ a # zs \<and> rest = ys @ zs"
proof (induction pq arbitrary: a rest)
  case Nil
  then show ?case by simp
next
  case (Cons x xs)
  show ?case
  proof (cases "(a, rest) = (x, xs)")
    case True
    then have "x # xs = [] @ a # xs \<and> rest = [] @ xs" by simp
    then show ?thesis by blast
  next
    case False
    with Cons.prems obtain ys' where in_xs: "(a, ys') \<in> set (splits xs)" and r: "rest = x # ys'"
      by auto
    from Cons.IH [OF in_xs] obtain ys zs where "xs = ys @ a # zs" "ys' = ys @ zs" by blast
    with r have "x # xs = (x # ys) @ a # zs \<and> rest = (x # ys) @ zs" by simp
    then show ?thesis by blast
  qed
qed

lemma splits_fst: "fst ` set (splits pq) = set pq"
  by (induction pq) (auto simp: image_iff, force+)


lemma minimal_node: "pq \<noteq> [] \<Longrightarrow> \<exists>a \<in> set pq. \<forall>b \<in> set pq. \<not> Compare a b"
proof (induction pq)
  case Nil
  then show ?case by simp
next
  case (Cons x xs)
  show ?case
  proof (cases "xs = []")
    case True
    then show ?thesis by (simp add: Compare_def)
  next
    case False
    with Cons.IH obtain a where a: "a \<in> set xs" "\<forall>b \<in> set xs. \<not> Compare a b" by blast
    show ?thesis
    proof (cases "Compare a x")
      case True
      with a have "\<forall>b \<in> set (x # xs). \<not> Compare x b"
        by (fastforce simp: Compare_def)
      then show ?thesis by (meson list.set_intros(1))
    next
      case False
      with a have "\<forall>b \<in> set (x # xs). \<not> Compare a b" by simp
      with a(1) show ?thesis by (meson list.set_intros(2))
    qed
  qed
qed

lemma candidates_nonempty: "pq \<noteq> [] \<Longrightarrow> candidates pq \<noteq> []"
proof -
  assume "pq \<noteq> []"
  from minimal_node [OF this] obtain a where a: "a \<in> set pq" "\<forall>b \<in> set pq. \<not> Compare a b"
    by blast
  from a(1) obtain rest where "(a, rest) \<in> set (splits pq)"
    using splits_fst [of pq] by (metis imageE prod.collapse)
  with a(2) have "(a, rest) \<in> set (candidates pq)"
    by (simp add: candidates_def list_all_iff)
  then show ?thesis by auto
qed

lemma pq_pop_candidate: "pq \<noteq> [] \<Longrightarrow> pq_pop k pq \<in> set (candidates pq)"
  by (simp add: pq_pop_def candidates_nonempty)

lemma pq_pop_decomp:
  assumes "pq \<noteq> []" and "pq_pop k pq = (a, rest)"
  shows "\<exists>ys zs. pq = ys @ a # zs \<and> rest = ys @ zs"
proof -
  from pq_pop_candidate [OF assms(1), of k] assms(2)
  have "(a, rest) \<in> set (splits pq)" by (simp add: candidates_def)
  then show ?thesis by (rule splits_decomp)
qed


lemma merge_step_length:
  assumes "1 < length pq"
  shows "Suc (length (merge_step k1 k2 pq)) = length pq"
proof -
  obtain l pq1 where p1: "pq_pop k1 pq = (l, pq1)" by (cases "pq_pop k1 pq")
  obtain r pq2 where p2: "pq_pop k2 pq1 = (r, pq2)" by (cases "pq_pop k2 pq1")
  from assms have ne: "pq \<noteq> []" by auto
  from pq_pop_decomp [OF ne p1] have l1: "Suc (length pq1) = length pq" by auto
  with assms have ne1: "pq1 \<noteq> []" by auto
  from pq_pop_decomp [OF ne1 p2] have "Suc (length pq2) = length pq1" by auto
  with l1 show ?thesis by (simp add: merge_step_def p1 p2)
qed

text \<open>
  \<^verbatim>\<open>while (pq.size() > 1) { ... }\<close>. The list \<open>ties\<close> resolves the ties of the calls of
  \<^verbatim>\<open>top\<close> in the order in which they are made (0 once the list is used up).
\<close>

function merge_loop :: "nat list \<Rightarrow> node list \<Rightarrow> node list" where
  "merge_loop ties pq =
     (if 1 < length pq
      then merge_loop (drop 2 ties) (merge_step (tie ties 0) (tie ties 1) pq)
      else pq)"
  by pat_completeness auto
termination
proof (relation "measure (\<lambda>(ties, pq). length pq)")
  show "wf (measure (\<lambda>(ties, pq). length pq))" by simp
next
  fix ties :: "nat list" and pq :: "node list"
  assume "1 < length pq"
  from merge_step_length [OF this, of "tie ties 0" "tie ties 1"]
  show "((drop 2 ties, merge_step (tie ties 0) (tie ties 1) pq), (ties, pq))
          \<in> measure (\<lambda>(ties, pq). length pq)"
    by simp
qed

declare merge_loop.simps [simp del]

text \<open>
  \<^verbatim>\<open>root = pq.top();\<close> after the loop. An empty queue does not reach this line
  (compress returns before it), so \<open>Null\<close> stands for no root.
\<close>

definition huffman_tree :: "nat list \<Rightarrow> byte list \<Rightarrow> node" where
  "huffman_tree ties input =
     (case merge_loop ties (initial_pq input) of [] \<Rightarrow> Null | pq \<Rightarrow> fst (pq_pop 0 pq))"

text \<open>
  \<^verbatim>\<open>void buildCode(Node* node, string str, int depth = 0)\<close>, passing the table
  \<^verbatim>\<open>unordered_map<char, string> huffmanCode\<close> through the traversal. The counters
  \<^verbatim>\<open>treeNodes\<close> and \<^verbatim>\<open>maxDepth\<close> are only printed in verbose mode and are left out.
\<close>

fun buildCode :: "node \<Rightarrow> string \<Rightarrow> (byte \<rightharpoonup> string) \<Rightarrow> (byte \<rightharpoonup> string)" where
  "buildCode Null str huffmanCode = huffmanCode"
| "buildCode (Node c f l r) str huffmanCode =
     buildCode r (str @ ''1'')
       (buildCode l (str @ ''0'')
         (if l = Null \<and> r = Null then huffmanCode(c \<mapsto> str) else huffmanCode))"

text \<open>
  \<^verbatim>\<open>void writeTree(Node* node, ofstream& out)\<close>: the bytes written. The characters
  \<^verbatim>\<open>'1'\<close> and \<^verbatim>\<open>'0'\<close> are the bytes 0x31 and 0x30.
\<close>

fun writeTree :: "node \<Rightarrow> byte list" where
  "writeTree Null = []"
| "writeTree (Node c f l r) =
     (if l = Null \<and> r = Null then [0x31, c] else 0x30 # writeTree l @ writeTree r)"

text \<open>
  \<^verbatim>\<open>bitset<8> byte(byteStr); byte.to_ulong()\<close>: the characters of the string are the bits,
  the first one the most significant; a character other than 0 and 1 makes the
  constructor throw.
\<close>

fun bits_value :: "string \<Rightarrow> nat \<Rightarrow> nat option" where
  "bits_value [] acc = Some acc"
| "bits_value (c # cs) acc =
     (if c = CHR ''0'' then bits_value cs (2 * acc)
      else if c = CHR ''1'' then bits_value cs (2 * acc + 1)
      else None)"

definition bitset8 :: "string \<Rightarrow> byte option" where
  "bitset8 byteStr = map_option of_nat (bits_value byteStr 0)"

text \<open>
  \<^verbatim>\<open>for (size_t i = 0; i < encoded.size(); i += 8) { ... substr(i, 8) ... out.put(...) }\<close>
\<close>

function pack :: "string \<Rightarrow> error + byte list" where
  "pack encoded =
     (if encoded = [] then Inr []
      else case bitset8 (take 8 encoded) of
             None \<Rightarrow> Inl InvalidArgument
           | Some b \<Rightarrow> (case pack (drop 8 encoded) of Inl e \<Rightarrow> Inl e | Inr bs \<Rightarrow> Inr (b # bs)))"
  by pat_completeness auto
termination
  by (relation "measure length") auto

declare pack.simps [simp del]

text \<open>
  \<^verbatim>\<open>huffmanCode[ch]\<close> in \<^verbatim>\<open>encoded += huffmanCode[ch]\<close>: a missing key reads as the
  empty string.
\<close>

definition code_of :: "(byte \<rightharpoonup> string) \<Rightarrow> byte \<Rightarrow> string" where
  "code_of huffmanCode c = (case huffmanCode c of None \<Rightarrow> [] | Some s \<Rightarrow> s)"

definition code_table :: "nat list \<Rightarrow> byte list \<Rightarrow> (byte \<rightharpoonup> string)" where
  "code_table ties input = buildCode (huffman_tree ties input) [] Map.empty"

definition encode :: "(byte \<rightharpoonup> string) \<Rightarrow> byte list \<Rightarrow> string" where
  "encode huffmanCode input = concat (map (code_of huffmanCode) input)"

text \<open>
  \<^verbatim>\<open>int extraBits = (8 - (encoded.size() % 8)) % 8;\<close>
  is \<open>pad_count encoded\<close> below.

  \<^verbatim>\<open>void compress(const string& inputFile, const string& outputFile, bool verbose)\<close>,
  from the bytes of the input file to the bytes of the output file. The object is fresh
  (\<^verbatim>\<open>main\<close> makes one call on a new \<^verbatim>\<open>HuffmanCoding\<close>), so \<^verbatim>\<open>huffmanCode\<close> starts
  empty. Opening the files and the statistics of verbose mode are the shell's part.
\<close>

definition pad_count :: "string \<Rightarrow> nat" where
  "pad_count encoded = (8 - length encoded mod 8) mod 8"

definition compress :: "nat list \<Rightarrow> byte list \<Rightarrow> error + byte list" where
  "compress ties input =
     (if freqMap input = [] then Inl EmptyInputError
      else
        let root = huffman_tree ties input;
            huffmanCode = buildCode root [] Map.empty;
            encoded = encode huffmanCode input;
            extraBits = pad_count encoded;
            padded = encoded @ replicate extraBits CHR ''0''
        in case pack padded of
             Inl e \<Rightarrow> Inl e
           | Inr payload \<Rightarrow> Inr (writeTree root @ [0x0A] @ [of_nat extraBits] @ payload))"



section \<open>Decompression\<close>

text \<open>
  \<^verbatim>\<open>Node* readTree(ifstream& in)\<close>, on the bytes not yet read: the node returned and
  the bytes left. A read at the end of the stream fails and leaves the stream failed,
  so every later read fails too: the bytes left are then none. Any byte other than
  \<^verbatim>\<open>'1'\<close> stands for an inner node, whose children are whatever the two recursive
  calls return, \<^verbatim>\<open>nullptr\<close> included. \<open>tag\<close> is the variable \<^verbatim>\<open>bit\<close>.
\<close>

function readTree :: "byte list \<Rightarrow> node \<times> byte list" where
  "readTree [] = (Null, [])"
| "readTree (tag # s) =
     (if tag = 0x31 then
        (case s of [] \<Rightarrow> (Null, []) | c # s' \<Rightarrow> (Node c 0 Null Null, s'))
      else
        (case readTree s of (l, s1) \<Rightarrow>
         case readTree s1 of (r, s2) \<Rightarrow> (Node 0 0 l r, s2)))"
  by pat_completeness auto

lemma readTree_shorter: "readTree_dom s \<Longrightarrow> length (snd (readTree s)) \<le> length s"
proof (induction s rule: readTree.pinduct)
  case 1
  then show ?case by (simp add: readTree.psimps)
next
  case (2 tag s)
  show ?case
  proof (cases "tag = 0x31")
    case True
    with 2(1) show ?thesis by (simp add: readTree.psimps split: list.splits)
  next
    case False
    obtain l s1 where r1: "readTree s = (l, s1)" by (cases "readTree s")
    obtain r s2 where r2: "readTree s1 = (r, s2)" by (cases "readTree s1")
    from 2(2) [OF False] r1 have "length s1 \<le> length s" by simp
    moreover from 2(3) [OF False r1 [symmetric]] r2 have "length s2 \<le> length s1" by simp
    ultimately show ?thesis using 2(1) False r1 r2 by (simp add: readTree.psimps)
  qed
qed

termination readTree
proof (relation "measure length", goal_cases)
  case 1
  show ?case by simp
next
  case (2 tag s)
  show ?case by simp
next
  case 3
  then show ?case
    using readTree_shorter by (metis in_measure le_imp_less_Suc length_Cons snd_conv)
qed

text \<open>
  \<^verbatim>\<open>char next = in.peek(); if (next == '\n') in.get();\<close> At the end of the stream
  \<^verbatim>\<open>peek\<close> returns EOF, which is not a newline.
\<close>

fun skip_newline :: "byte list \<Rightarrow> byte list" where
  "skip_newline [] = []"
| "skip_newline (next # s) = (if next = 0x0A then s else next # s)"

text \<open>
  The first part of \<^verbatim>\<open>decompress\<close> (lines 174 to 188): the tree, the pad count
  \<^verbatim>\<open>extraBits\<close> and the bytes left, which are the payload.
\<close>

definition read_header :: "byte list \<Rightarrow> error + (node \<times> nat \<times> byte list)" where
  "read_header s =
     (case readTree s of (root, s1) \<Rightarrow>
        if root = Null then Inl TruncatedTreeError
        else case skip_newline s1 of
               [] \<Rightarrow> Inl TruncatedStreamError
             | e # payload \<Rightarrow> Inr (root, unat e, payload))"

text \<open>\<^verbatim>\<open>bitset<8> bits(byte); bits.to_string()\<close>: eight characters, the most significant bit first.\<close>

definition to_string :: "byte \<Rightarrow> string" where
  "to_string b = map (\<lambda>i. if bit b i then CHR ''1'' else CHR ''0'') [7, 6, 5, 4, 3, 2, 1, 0]"

definition unpack :: "byte list \<Rightarrow> string" where
  "unpack payload = concat (map to_string payload)"

text \<open>
  \<^verbatim>\<open>if (extraBits > 0 && extraBits <= 8 && bitString.size() >= (size_t)extraBits)
      bitString = bitString.substr(0, bitString.size() - extraBits);\<close>
\<close>

definition drop_padding :: "nat \<Rightarrow> string \<Rightarrow> string" where
  "drop_padding extraBits bitString =
     (if 0 < extraBits \<and> extraBits \<le> 8 \<and> extraBits \<le> length bitString
      then take (length bitString - extraBits) bitString
      else bitString)"

text \<open>
  The loop \<^verbatim>\<open>for (char bit : bitString)\<close> of decompress, from the node \<open>current\<close>: the
  bytes written to the output. After the move, \<^verbatim>\<open>current->left\<close> is read: a move
  to \<^verbatim>\<open>nullptr\<close> is a null dereference.
\<close>

fun walk :: "node \<Rightarrow> node \<Rightarrow> string \<Rightarrow> error + byte list" where
  "walk root current [] = Inr []"
| "walk root current (b # bs) =
     (if b = CHR ''0'' \<or> b = CHR ''1'' then
        (case current of
           Null \<Rightarrow> Inl NullDereference
         | Node _ _ l r \<Rightarrow>
             (case (if b = CHR ''0'' then l else r) of
                Null \<Rightarrow> Inl NullDereference
              | Node c f l' r' \<Rightarrow>
                  if l' = Null \<and> r' = Null
                  then (case walk root root bs of Inl e \<Rightarrow> Inl e | Inr out \<Rightarrow> Inr (c # out))
                  else walk root (Node c f l' r') bs))
      else walk root current bs)"

text \<open>
  \<^verbatim>\<open>void decompress(const string& inputFile, const string& outputFile, bool verbose)\<close>,
  from the bytes of the compressed file to the bytes of the output file.
\<close>

definition decompress :: "byte list \<Rightarrow> error + byte list" where
  "decompress s =
     (case read_header s of
        Inl e \<Rightarrow> Inl e
      | Inr (root, extraBits, payload) \<Rightarrow>
          walk root root (drop_padding extraBits (unpack payload)))"


section \<open>Notions used in the statements and proofs\<close>

text \<open>
  A leaf is a node with \<^verbatim>\<open>!node->left && !node->right\<close>. A tree is \<open>full\<close> when it
  is not \<^verbatim>\<open>nullptr\<close> and each of its nodes is a leaf or has two full children.
  \<open>leaves t\<close> are the bytes at the leaves of \<open>t\<close>, and \<open>has_code t p c\<close> says that the
  path \<open>p\<close> (0 to the left, 1 to the right) leads from the root of \<open>t\<close> to a leaf that
  holds \<open>c\<close>. \<open>strip t\<close> is \<open>t\<close> as \<^verbatim>\<open>readTree\<close> rebuilds it: every \<^verbatim>\<open>freq\<close> is 0,
  and so is \<^verbatim>\<open>ch\<close> of every inner node. A \<open>bitstring\<close> holds the characters 0 and 1 only.
\<close>

fun is_leaf :: "node \<Rightarrow> bool" where
  "is_leaf Null = False"
| "is_leaf (Node c f l r) = (l = Null \<and> r = Null)"

fun full :: "node \<Rightarrow> bool" where
  "full Null = False"
| "full (Node c f l r) = ((l = Null \<and> r = Null) \<or> (full l \<and> full r))"

fun leaves :: "node \<Rightarrow> byte set" where
  "leaves Null = {}"
| "leaves (Node c f l r) = (if l = Null \<and> r = Null then {c} else leaves l \<union> leaves r)"

fun has_code :: "node \<Rightarrow> string \<Rightarrow> byte \<Rightarrow> bool" where
  "has_code Null p c = False"
| "has_code (Node a f l r) p c =
     (if l = Null \<and> r = Null then p = [] \<and> a = c
      else (case p of [] \<Rightarrow> False
            | b # p' \<Rightarrow> (b = CHR ''0'' \<and> has_code l p' c) \<or> (b = CHR ''1'' \<and> has_code r p' c)))"

fun strip :: "node \<Rightarrow> node" where
  "strip Null = Null"
| "strip (Node c f l r) = (if l = Null \<and> r = Null then Node c 0 Null Null else Node 0 0 (strip l) (strip r))"

definition bitstring :: "string \<Rightarrow> bool" where
  "bitstring s = list_all (\<lambda>c. c = CHR ''0'' \<or> c = CHR ''1'') s"

text \<open>\<open>bits_nat s\<close> is the number that the bitstring \<open>s\<close> writes in binary.\<close>

definition bits_nat :: "string \<Rightarrow> nat" where
  "bits_nat s = foldl (\<lambda>acc c. 2 * acc + (if c = CHR ''1'' then 1 else 0)) 0 s"

text \<open>
  \<open>tie_free pq\<close>: from the queue \<open>pq\<close> on, at the start of every round of the merge loop
  the nodes of the queue have pairwise different weights, so that no call of
  \<^verbatim>\<open>top\<close> has two candidates.
\<close>

function tie_free :: "node list \<Rightarrow> bool" where
  "tie_free pq =
     (if 1 < length pq then distinct (map freq pq) \<and> tie_free (merge_step 0 0 pq) else True)"
  by pat_completeness auto
termination
proof (relation "measure length", goal_cases)
  case 1
  show ?case by simp
next
  case (2 pq)
  then show ?case using merge_step_length [of pq 0 0] by simp
qed

declare tie_free.simps [simp del]

text \<open>
  The layout of the specification, in its words: the tree as a sequence of bits
  (preorder; the bit 1 and the eight bits of the symbol for a leaf, the bit 0 for an
  inner node), filled up to the next byte boundary, then the byte of the pad count, then
  the payload, and nothing between the tree and the pad count.
\<close>

fun spec_serialize :: "node \<Rightarrow> string" where
  "spec_serialize Null = []"
| "spec_serialize (Node c f l r) =
     (if l = Null \<and> r = Null then CHR ''1'' # to_string c
      else CHR ''0'' # spec_serialize l @ spec_serialize r)"

definition spec_layout :: "node \<Rightarrow> nat \<Rightarrow> byte list \<Rightarrow> error + byte list" where
  "spec_layout root extraBits payload =
     (case pack (spec_serialize root @ replicate (pad_count (spec_serialize root)) CHR ''0'') of
        Inl e \<Rightarrow> Inl e
      | Inr tree_bytes \<Rightarrow> Inr (tree_bytes @ [of_nat extraBits] @ payload))"


section \<open>Trees, paths and codes\<close>

lemma strip_Null_iff [simp]: "strip t = Null \<longleftrightarrow> t = Null"
  by (cases t) auto

lemma full_strip [simp]: "full (strip t) = full t"
  by (induction t) auto

lemma has_code_strip [simp]: "has_code (strip t) p c = has_code t p c"
  by (induction t arbitrary: p) (auto split: list.splits)

lemma is_leaf_strip [simp]: "is_leaf (strip t) = is_leaf t"
  by (cases t) auto

lemma has_code_bitstring: "has_code t p c \<Longrightarrow> bitstring p"
  by (induction t arbitrary: p) (auto simp: bitstring_def split: if_splits list.splits)

lemma has_code_leaves: "has_code t p c \<Longrightarrow> c \<in> leaves t"
  by (induction t arbitrary: p) (auto split: if_splits list.splits)

lemma leaves_has_code: "c \<in> leaves t \<Longrightarrow> \<exists>p. has_code t p c"
proof (induction t)
  case Null
  then show ?case by simp
next
  case (Node a f l r)
  show ?case
  proof (cases "l = Null \<and> r = Null")
    case True
    with Node.prems show ?thesis by auto
  next
    case False
    with Node.prems consider "c \<in> leaves l" | "c \<in> leaves r" by auto
    then show ?thesis
    proof cases
      case 1
      from Node.IH(1) [OF 1] obtain p where "has_code l p c" by blast
      with False have "has_code (Node a f l r) (CHR ''0'' # p) c" by simp
      then show ?thesis by blast
    next
      case 2
      from Node.IH(2) [OF 2] obtain p where "has_code r p c" by blast
      with False have "has_code (Node a f l r) (CHR ''1'' # p) c" by simp
      then show ?thesis by blast
    qed
  qed
qed

lemma has_code_prefix_free:
  "has_code t p a \<Longrightarrow> has_code t q b \<Longrightarrow> prefix p q \<Longrightarrow> a = b \<and> p = q"
proof (induction t arbitrary: p q)
  case Null
  then show ?case by simp
next
  case (Node x f l r)
  show ?case
  proof (cases "l = Null \<and> r = Null")
    case True
    with Node.prems show ?thesis by simp
  next
    case False
    with Node.prems(1) obtain b0 p' where p: "p = b0 # p'" by (cases p) auto
    with Node.prems(3) obtain q' where q: "q = b0 # q'" and pre: "prefix p' q'"
      by (cases q) auto
    show ?thesis
    proof (cases "b0 = CHR ''0''")
      case True
      with False Node.prems(1,2) p q have "has_code l p' a" "has_code l q' b" by auto
      from Node.IH(1) [OF this pre] p q show ?thesis by simp
    next
      case b0: False
      with False Node.prems(1,2) p q have "has_code r p' a" "has_code r q' b" by auto
      from Node.IH(2) [OF this pre] p q show ?thesis by simp
    qed
  qed
qed

lemma buildCode_other: "c \<notin> leaves t \<Longrightarrow> buildCode t str hc c = hc c"
  by (induction t arbitrary: str hc) auto

lemma buildCode_cases:
  "buildCode t str hc c = hc c \<or> (\<exists>p. buildCode t str hc c = Some (str @ p) \<and> has_code t p c)"
proof (induction t arbitrary: str hc)
  case Null
  then show ?case by simp
next
  case (Node a f l r)
  show ?case
  proof (cases "l = Null \<and> r = Null")
    case True
    then show ?thesis by auto
  next
    case False
    let ?h1 = "buildCode l (str @ ''0'') hc"
    have eq: "buildCode (Node a f l r) str hc = buildCode r (str @ ''1'') ?h1"
      using False by auto
    from Node.IH(2) [of "str @ ''1''" ?h1]
    consider "buildCode r (str @ ''1'') ?h1 c = ?h1 c"
      | p where "buildCode r (str @ ''1'') ?h1 c = Some ((str @ ''1'') @ p)" "has_code r p c"
      by blast
    then show ?thesis
    proof cases
      case 1
      from Node.IH(1) [of "str @ ''0''" hc]
      consider "?h1 c = hc c" | p where "?h1 c = Some ((str @ ''0'') @ p)" "has_code l p c"
        by blast
      then show ?thesis
      proof cases
        case 1
        with \<open>buildCode r (str @ ''1'') ?h1 c = ?h1 c\<close> eq show ?thesis by simp
      next
        case 2
        with False have "has_code (Node a f l r) (CHR ''0'' # p) c" by simp
        moreover from 2 1 eq have "buildCode (Node a f l r) str hc c = Some (str @ CHR ''0'' # p)"
          by simp
        ultimately show ?thesis by blast
      qed
    next
      case 2
      with False have "has_code (Node a f l r) (CHR ''1'' # p) c" by simp
      moreover from 2 eq have "buildCode (Node a f l r) str hc c = Some (str @ CHR ''1'' # p)"
        by simp
      ultimately show ?thesis by blast
    qed
  qed
qed

lemma buildCode_leaf:
  "c \<in> leaves t \<Longrightarrow> \<exists>p. buildCode t str hc c = Some (str @ p) \<and> has_code t p c"
proof (induction t arbitrary: str hc)
  case Null
  then show ?case by simp
next
  case (Node a f l r)
  show ?case
  proof (cases "l = Null \<and> r = Null")
    case True
    with Node.prems show ?thesis by auto
  next
    case False
    let ?h1 = "buildCode l (str @ ''0'') hc"
    have eq: "buildCode (Node a f l r) str hc = buildCode r (str @ ''1'') ?h1"
      using False by auto
    show ?thesis
    proof (cases "c \<in> leaves r")
      case True
      from Node.IH(2) [OF True, of "str @ ''1''" ?h1] obtain p
        where "buildCode r (str @ ''1'') ?h1 c = Some ((str @ ''1'') @ p)" "has_code r p c"
        by blast
      with False eq have "buildCode (Node a f l r) str hc c = Some (str @ CHR ''1'' # p)
          \<and> has_code (Node a f l r) (CHR ''1'' # p) c" by simp
      then show ?thesis by blast
    next
      case nr: False
      with Node.prems False have inl: "c \<in> leaves l" by auto
      from Node.IH(1) [OF inl, of "str @ ''0''" hc] obtain p
        where "?h1 c = Some ((str @ ''0'') @ p)" "has_code l p c" by blast
      with False eq buildCode_other [OF nr, of "str @ ''1''" ?h1]
      have "buildCode (Node a f l r) str hc c = Some (str @ CHR ''0'' # p)
          \<and> has_code (Node a f l r) (CHR ''0'' # p) c" by simp
      then show ?thesis by blast
    qed
  qed
qed


subsection \<open>The tree walk\<close>

lemma walk_code:
  assumes "has_code current p c" and "\<not> is_leaf current"
  shows "walk root current (p @ rest) =
           (case walk root root rest of Inl e \<Rightarrow> Inl e | Inr out \<Rightarrow> Inr (c # out))"
  using assms
proof (induction p arbitrary: current)
  case Nil
  then show ?case by (cases current) (auto split: if_splits)
next
  case (Cons b p)
  from Cons.prems obtain a f l r where cur: "current = Node a f l r" and inner: "\<not> (l = Null \<and> r = Null)"
    by (cases current) auto
  let ?next = "if b = CHR ''0'' then l else r"
  from Cons.prems(1) cur inner have b: "b = CHR ''0'' \<or> b = CHR ''1''" and nx: "has_code ?next p c"
    by auto
  from nx obtain a' f' l' r' where nxt: "?next = Node a' f' l' r'"
    by (cases ?next) auto
  show ?case
  proof (cases "l' = Null \<and> r' = Null")
    case True
    with nx nxt have "p = []" "a' = c" by auto
    with b cur nxt True show ?thesis by simp
  next
    case False
    with nxt have "\<not> is_leaf ?next" by simp
    from Cons.IH [OF nx this] b cur nxt False show ?thesis by auto
  qed
qed

lemma walk_partial:
  assumes "has_code current p c" and "m < length p"
  shows "walk root current (take m p) = Inr []"
  using assms
proof (induction p arbitrary: current m)
  case Nil
  then show ?case by simp
next
  case (Cons b p)
  show ?case
  proof (cases m)
    case 0
    then show ?thesis by simp
  next
    case (Suc m')
    from Cons.prems(2) Suc have m': "m' < length p" by simp
    from Cons.prems(1) obtain a f l r where cur: "current = Node a f l r" and inner: "\<not> (l = Null \<and> r = Null)"
      by (cases current) (auto split: if_splits)
    let ?next = "if b = CHR ''0'' then l else r"
    from Cons.prems(1) cur inner have b: "b = CHR ''0'' \<or> b = CHR ''1''" and nx: "has_code ?next p c"
      by auto
    from nx obtain a' f' l' r' where nxt: "?next = Node a' f' l' r'"
      by (cases ?next) auto
    from nx nxt m' have inner': "\<not> (l' = Null \<and> r' = Null)" by auto
    from Cons.IH [OF nx m'] Suc b cur nxt inner' show ?thesis by auto
  qed
qed

subsection \<open>Reading back a written tree\<close>

lemma readTree_writeTree: "full t \<Longrightarrow> readTree (writeTree t @ rest) = (strip t, rest)"
proof (induction t arbitrary: rest)
  case Null
  then show ?case by simp
next
  case (Node a f l r)
  show ?case
  proof (cases "l = Null \<and> r = Null")
    case True
    then show ?thesis by simp
  next
    case False
    with Node.prems have fl: "full l" and fr: "full r" by auto
    from Node.IH(1) [OF fl, of "writeTree r @ rest"] Node.IH(2) [OF fr, of rest] False
    show ?thesis by auto
  qed
qed

subsection \<open>Packing and unpacking bits\<close>

lemma bits_value_foldl:
  "bitstring s \<Longrightarrow>
     bits_value s acc = Some (foldl (\<lambda>acc c. 2 * acc + (if c = CHR ''1'' then 1 else 0)) acc s)"
  by (induction s arbitrary: acc) (auto simp: bitstring_def)

lemma bits_value_bits_nat: "bitstring s \<Longrightarrow> bits_value s 0 = Some (bits_nat s)"
  by (simp add: bits_value_foldl bits_nat_def)

lemma bits_nat_snoc: "bits_nat (s @ [c]) = 2 * bits_nat s + (if c = CHR ''1'' then 1 else 0)"
  by (simp add: bits_nat_def)

lemma rev_upt_Suc: "rev [0..<Suc n] = map Suc (rev [0..<n]) @ [0]"
proof -
  have "[0..<Suc n] = 0 # map Suc [0..<n]"
    by (simp add: upt_conv_Cons map_Suc_upt del: upt_Suc)
  then show ?thesis by (simp add: rev_map del: upt_Suc)
qed

lemma bits_nat_chars:
  "bitstring s \<Longrightarrow>
     map (\<lambda>i. if bit (bits_nat s) i then CHR ''1'' else CHR ''0'') (rev [0..<length s]) = s"
proof (induction s rule: rev_induct)
  case Nil
  then show ?case by simp
next
  case (snoc c s)
  from snoc.prems have bs: "bitstring s" and c: "c = CHR ''0'' \<or> c = CHR ''1''"
    by (auto simp: bitstring_def)
  let ?v = "bits_nat (s @ [c])"
  have b0: "bit ?v 0 \<longleftrightarrow> c = CHR ''1''"
    by (simp add: bits_nat_snoc bit_0)
  have bS: "bit ?v (Suc i) = bit (bits_nat s) i" for i
    by (simp add: bits_nat_snoc bit_Suc)
  have "map (\<lambda>i. if bit ?v i then CHR ''1'' else CHR ''0'') (rev [0..<length (s @ [c])])
      = map (\<lambda>i. if bit (bits_nat s) i then CHR ''1'' else CHR ''0'') (rev [0..<length s])
        @ [if c = CHR ''1'' then CHR ''1'' else CHR ''0'']"
    using b0 bS by (simp add: rev_upt_Suc o_def del: upt_Suc)
  with snoc.IH [OF bs] c show ?case by auto
qed

lemma to_string_bitset8:
  assumes "bitstring s" "length s = 8"
  shows "\<exists>b. bitset8 s = Some b \<and> to_string b = s"
proof -
  have l: "rev [0..<length s] = [7, 6, 5, 4, 3, 2, 1, 0]"
    by (simp add: assms(2) eval_nat_numeral)
  have "to_string (of_nat (bits_nat s)) =
          map (\<lambda>i. if bit (bits_nat s) i then CHR ''1'' else CHR ''0'') [7, 6, 5, 4, 3, 2, 1, 0]"
    by (simp add: to_string_def bit_of_nat_iff)
  also have "\<dots> = s"
    using bits_nat_chars [OF assms(1)] by (simp only: l)
  finally show ?thesis
    by (simp add: bitset8_def bits_value_bits_nat [OF assms(1)])
qed

lemma pack_unpack:
  assumes "bitstring s" and "length s = 8 * n"
  shows "\<exists>bs. pack s = Inr bs \<and> unpack bs = s \<and> length bs = n"
  using assms
proof (induction n arbitrary: s)
  case 0
  then show ?case by (subst pack.simps) (simp add: unpack_def)
next
  case (Suc n)
  from Suc.prems have ne: "s \<noteq> []" by auto
  from Suc.prems have b8: "bitstring (take 8 s)" "length (take 8 s) = 8"
    by (auto simp: bitstring_def list_all_iff dest: in_set_takeD)
  from Suc.prems have br: "bitstring (drop 8 s)" "length (drop 8 s) = 8 * n"
    by (auto simp: bitstring_def list_all_iff dest: in_set_dropD)
  from to_string_bitset8 [OF b8] obtain b where b: "bitset8 (take 8 s) = Some b" "to_string b = take 8 s"
    by blast
  from Suc.IH [OF br] obtain bs where bs: "pack (drop 8 s) = Inr bs" "unpack bs = drop 8 s" "length bs = n"
    by blast
  have "pack s = Inr (b # bs)"
    using ne b(1) bs(1) by (subst pack.simps) simp
  moreover have "unpack (b # bs) = s"
    using b(2) bs(2) by (simp add: unpack_def)
  ultimately show ?case using bs(3) by simp
qed


subsection \<open>The frequency table and the queue\<close>

lemma incr_keys: "fst ` set (incr c m) = insert c (fst ` set m)"
  by (induction c m rule: incr.induct) auto

lemma incr_nonempty: "incr c m \<noteq> []"
  by (induction c m rule: incr.induct) auto

lemma foldl_incr_keys: "fst ` set (foldl (\<lambda>m c. incr c m) m input) = fst ` set m \<union> set input"
  by (induction input arbitrary: m) (auto simp: incr_keys)

lemma freqMap_keys: "fst ` set (freqMap input) = set input"
  by (simp add: freqMap_def foldl_incr_keys)

lemma freqMap_empty_iff: "freqMap input = [] \<longleftrightarrow> input = []"
proof
  assume "freqMap input = []"
  then have "fst ` set (freqMap input) = {}" by simp
  then show "input = []" by (simp add: freqMap_keys)
next
  assume "input = []"
  then show "freqMap input = []" by (simp add: freqMap_def)
qed

lemma initial_pq_full: "t \<in> set (initial_pq input) \<Longrightarrow> full t"
  by (auto simp: initial_pq_def)

lemma initial_pq_leaves: "(\<Union>t \<in> set (initial_pq input). leaves t) = set input"
proof -
  have "(\<Union>t \<in> set (initial_pq input). leaves t) = fst ` set (freqMap input)"
    by (force simp: initial_pq_def)
  then show ?thesis by (simp add: freqMap_keys)
qed

lemma initial_pq_length: "card (set input) \<le> length (initial_pq input)"
proof -
  have "card (fst ` set (freqMap input)) \<le> card (set (freqMap input))"
    by (rule card_image_le) simp
  also have "\<dots> \<le> length (freqMap input)" by (rule card_length)
  finally show ?thesis by (simp add: freqMap_keys initial_pq_def)
qed

lemma initial_pq_empty_iff: "initial_pq input = [] \<longleftrightarrow> input = []"
  by (simp add: initial_pq_def freqMap_empty_iff)

subsection \<open>The merge loop\<close>

lemma merge_step_set:
  assumes "1 < length pq"
  shows "\<exists>l r pq2. merge_step k1 k2 pq = pq2 @ [Node 0 (freq l + freq r) l r]
           \<and> set pq = insert l (insert r (set pq2))"
proof -
  obtain l pq1 where p1: "pq_pop k1 pq = (l, pq1)" by (cases "pq_pop k1 pq")
  obtain r pq2 where p2: "pq_pop k2 pq1 = (r, pq2)" by (cases "pq_pop k2 pq1")
  from assms have ne: "pq \<noteq> []" by auto
  from pq_pop_decomp [OF ne p1] obtain ys zs where d1: "pq = ys @ l # zs" "pq1 = ys @ zs"
    by blast
  with assms have ne1: "pq1 \<noteq> []" by auto
  from pq_pop_decomp [OF ne1 p2] obtain ys' zs' where d2: "pq1 = ys' @ r # zs'" "pq2 = ys' @ zs'"
    by blast
  have "set pq = insert l (set pq1)" using d1 by auto
  moreover have "set pq1 = insert r (set pq2)" using d2 by auto
  ultimately have "set pq = insert l (insert r (set pq2))" by simp
  moreover have "merge_step k1 k2 pq = pq2 @ [Node 0 (freq l + freq r) l r]"
    by (simp add: merge_step_def p1 p2)
  ultimately show ?thesis by blast
qed

lemma merge_step_inv:
  assumes "1 < length pq" and "\<forall>t \<in> set pq. full t"
  shows "(\<forall>t \<in> set (merge_step k1 k2 pq). full t)
       \<and> (\<Union>t \<in> set (merge_step k1 k2 pq). leaves t) = (\<Union>t \<in> set pq. leaves t)
       \<and> merge_step k1 k2 pq \<noteq> []
       \<and> \<not> is_leaf (last (merge_step k1 k2 pq))"
proof -
  from merge_step_set [OF assms(1), of k1 k2] obtain l r pq2
    where ms: "merge_step k1 k2 pq = pq2 @ [Node 0 (freq l + freq r) l r]"
      and st: "set pq = insert l (insert r (set pq2))" by blast
  from assms(2) st have fl: "full l" and fr: "full r" and f2: "\<forall>t \<in> set pq2. full t" by auto
  from fl have lnn: "l \<noteq> Null" by auto
  have "\<forall>t \<in> set (merge_step k1 k2 pq). full t"
    using ms fl fr f2 by auto
  moreover have "(\<Union>t \<in> set (merge_step k1 k2 pq). leaves t) = (\<Union>t \<in> set pq. leaves t)"
    using ms st lnn by auto
  moreover have "\<not> is_leaf (last (merge_step k1 k2 pq))"
    using ms lnn by simp
  ultimately show ?thesis using ms by simp
qed

lemma merge_loop_inv:
  assumes "pq \<noteq> []" and "\<forall>t \<in> set pq. full t"
  shows "\<exists>t. merge_loop ties pq = [t] \<and> full t \<and> leaves t = (\<Union>t \<in> set pq. leaves t)
           \<and> (1 < length pq \<longrightarrow> \<not> is_leaf t)"
  using assms
proof (induction ties pq rule: merge_loop.induct)
  case (1 ties pq)
  show ?case
  proof (cases "1 < length pq")
    case False
    with "1.prems"(1) obtain t where pq: "pq = [t]"
      by (cases pq) auto
    with "1.prems"(2) False show ?thesis by (subst merge_loop.simps) simp
  next
    case True
    let ?pq' = "merge_step (tie ties 0) (tie ties 1) pq"
    from merge_step_inv [OF True "1.prems"(2), of "tie ties 0" "tie ties 1"]
    have inv: "\<forall>t \<in> set ?pq'. full t" "(\<Union>t \<in> set ?pq'. leaves t) = (\<Union>t \<in> set pq. leaves t)"
      "?pq' \<noteq> []" "\<not> is_leaf (last ?pq')" by auto
    from "1.IH" [OF True inv(3) inv(1)] obtain t
      where t: "merge_loop (drop 2 ties) ?pq' = [t]" "full t"
        "leaves t = (\<Union>t \<in> set ?pq'. leaves t)" "1 < length ?pq' \<longrightarrow> \<not> is_leaf t"
      by blast
    have eq: "merge_loop ties pq = [t]"
      using True t(1) by (subst merge_loop.simps) simp
    have "\<not> is_leaf t"
    proof (cases "1 < length ?pq'")
      case True
      with t(4) show ?thesis by simp
    next
      case False
      with inv(3) obtain u where u: "?pq' = [u]" by (cases ?pq') auto
      with t(1) have "t = u" by (subst (asm) merge_loop.simps) simp
      with inv(4) u show ?thesis by simp
    qed
    with eq t(2,3) inv(2) show ?thesis by simp
  qed
qed

lemma pq_pop_single: "pq_pop k [t] = (t, [])"
  by (simp add: pq_pop_def candidates_def Compare_def)

lemma huffman_tree_inv:
  assumes "input \<noteq> []"
  shows "full (huffman_tree ties input) \<and> leaves (huffman_tree ties input) = set input
       \<and> (1 < card (set input) \<longrightarrow> \<not> is_leaf (huffman_tree ties input))"
proof -
  from assms have ne: "initial_pq input \<noteq> []" by (simp add: initial_pq_empty_iff)
  have "\<forall>t \<in> set (initial_pq input). full t" by (simp add: initial_pq_full)
  from merge_loop_inv [OF ne this, of ties] obtain t
    where t: "merge_loop ties (initial_pq input) = [t]" "full t"
      "leaves t = (\<Union>t \<in> set (initial_pq input). leaves t)"
      "1 < length (initial_pq input) \<longrightarrow> \<not> is_leaf t" by blast
  have ht: "huffman_tree ties input = t"
    by (simp add: huffman_tree_def t(1) pq_pop_single)
  have "1 < card (set input) \<longrightarrow> \<not> is_leaf t"
    using t(4) initial_pq_length [of input] by auto
  with ht t(2,3) show ?thesis by (simp add: initial_pq_leaves)
qed


section \<open>Empty and single-symbol inputs\<close>

text \<open>
  Claim C5. Compressing the empty byte sequence fails with \<open>EmptyInputError\<close>: the result is
  the error and no artifact, whatever the resolution of ties. (The source returns before
  the output file is opened.)
\<close>

theorem compress_empty_input: "compress ties [] = Inl EmptyInputError"
  by (simp add: compress_def freqMap_def)


section \<open>The artifact of compress and its decoding\<close>

lemma code_of_buildCode:
  "code_of (buildCode t [] Map.empty) c = [] \<or> has_code t (code_of (buildCode t [] Map.empty) c) c"
  using buildCode_cases [of t "[]" Map.empty c] by (auto simp: code_of_def)

lemma code_of_leaf:
  "c \<in> leaves t \<Longrightarrow> has_code t (code_of (buildCode t [] Map.empty) c) c"
  using buildCode_leaf [of c t "[]" Map.empty] by (auto simp: code_of_def)

lemma bitstring_Nil [simp]: "bitstring []"
  by (simp add: bitstring_def)

lemma bitstring_append [simp]: "bitstring (xs @ ys) \<longleftrightarrow> bitstring xs \<and> bitstring ys"
  by (simp add: bitstring_def)

lemma bitstring_zeros [simp]: "bitstring (replicate n CHR ''0'')"
  by (simp add: bitstring_def list_all_iff)

lemma bitstring_encode: "bitstring (encode (buildCode t [] Map.empty) input)"
proof (induction input)
  case Nil
  then show ?case by (simp add: encode_def)
next
  case (Cons c input)
  from code_of_buildCode [of t c] have "bitstring (code_of (buildCode t [] Map.empty) c)"
    by (auto dest: has_code_bitstring)
  with Cons show ?case by (simp add: encode_def)
qed

lemma pad_count_less: "pad_count encoded < 8"
  by (simp add: pad_count_def)

lemma pad_arith: "((n::nat) + (8 - n mod 8) mod 8) mod 8 = 0"
proof -
  have less: "n mod 8 < 8" by simp
  then consider "n mod 8 = 0" | "0 < n mod 8" by auto
  then show ?thesis
  proof cases
    case 1
    then show ?thesis by simp
  next
    case 2
    then have "(n + (8 - n mod 8) mod 8) mod 8 = (n + (8 - n mod 8)) mod 8" by simp
    also have "\<dots> = (n mod 8 + (8 - n mod 8)) mod 8"
      by (rule mod_add_left_eq [symmetric])
    also have "n mod 8 + (8 - n mod 8) = 8"
      using less by (simp only: le_add_diff_inverse less_imp_le)
    finally show ?thesis by simp
  qed
qed

lemma padded_length: "\<exists>n. length encoded + pad_count encoded = 8 * n"
proof -
  have "(length encoded + pad_count encoded) mod 8 = 0"
    unfolding pad_count_def by (rule pad_arith)
  then have "8 dvd length encoded + pad_count encoded" by (simp add: dvd_eq_mod_eq_0)
  then show ?thesis by (auto simp: dvd_def)
qed

lemma compress_artifact:
  assumes "input \<noteq> []"
  shows "\<exists>payload.
           compress ties input =
             Inr (writeTree (huffman_tree ties input) @
                  [0x0A, of_nat (pad_count (encode (code_table ties input) input))] @ payload)
         \<and> unpack payload =
             encode (code_table ties input) input @
             replicate (pad_count (encode (code_table ties input) input)) CHR ''0''"
proof -
  let ?enc = "encode (code_table ties input) input"
  let ?padded = "?enc @ replicate (pad_count ?enc) CHR ''0''"
  have bs: "bitstring ?padded"
    by (simp add: code_table_def bitstring_encode)
  from padded_length [of ?enc] obtain n where "length ?padded = 8 * n" by auto
  from pack_unpack [OF bs this] obtain payload
    where p: "pack ?padded = Inr payload" "unpack payload = ?padded" by blast
  from assms have "freqMap input \<noteq> []" by (simp add: freqMap_empty_iff)
  then have "compress ties input =
      Inr (writeTree (huffman_tree ties input) @ [0x0A, of_nat (pad_count ?enc)] @ payload)"
    using p(1) by (simp add: compress_def Let_def code_table_def)
  with p(2) show ?thesis by blast
qed

lemma read_header_written:
  assumes "full t"
  shows "read_header (writeTree t @ 0x0A # e # payload) = Inr (strip t, unat e, payload)"
proof -
  from assms have "t \<noteq> Null" by auto
  with readTree_writeTree [OF assms, of "0x0A # e # payload"] show ?thesis
    by (simp add: read_header_def)
qed

lemma drop_padding_padded:
  "n < 8 \<Longrightarrow> drop_padding n (encoded @ replicate n c) = encoded"
  by (simp add: drop_padding_def)

lemma walk_encode:
  assumes "\<not> is_leaf t" and "\<forall>c \<in> set input. has_code t (code_of hc c) c"
  shows "walk t t (encode hc input) = Inr input"
  using assms(2)
proof (induction input)
  case Nil
  then show ?case by (simp add: encode_def)
next
  case (Cons c input)
  then have hc: "has_code t (code_of hc c) c" and IH: "walk t t (encode hc input) = Inr input"
    by (simp_all add: )
  have "encode hc (c # input) = code_of hc c @ encode hc input"
    by (simp add: encode_def)
  with walk_code [OF hc assms(1), of t "encode hc input"] IH show ?case by simp
qed

lemma unat_pad: "n < 8 \<Longrightarrow> unat (of_nat n :: byte) = n"
  by (simp add: unat_of_nat)

text \<open>
  The round trip on an input with at least two distinct byte values: compress returns an
  artifact and decompress returns the input from it, whatever the resolution of ties.
\<close>

theorem roundtrip_two_symbols:
  assumes "1 < card (set input)"
  shows "\<exists>artifact. compress ties input = Inr artifact \<and> decompress artifact = Inr input"
proof -
  let ?root = "huffman_tree ties input"
  let ?hc = "code_table ties input"
  let ?enc = "encode ?hc input"
  from assms have ne: "input \<noteq> []" by auto
  from huffman_tree_inv [OF ne, of ties] assms
  have root: "full ?root" "leaves ?root = set input" "\<not> is_leaf ?root" by auto
  from compress_artifact [OF ne, of ties] obtain payload
    where art: "compress ties input = Inr (writeTree ?root @ [0x0A, of_nat (pad_count ?enc)] @ payload)"
      and pl: "unpack payload = ?enc @ replicate (pad_count ?enc) CHR ''0''" by blast
  have hdr: "read_header (writeTree ?root @ 0x0A # of_nat (pad_count ?enc) # payload)
               = Inr (strip ?root, pad_count ?enc, payload)"
    using read_header_written [OF root(1), of "of_nat (pad_count ?enc)" payload]
    by (simp add: unat_pad pad_count_less)
  have codes: "\<forall>c \<in> set input. has_code (strip ?root) (code_of ?hc c) c"
    using root(2) by (auto simp: code_table_def intro: code_of_leaf)
  have "walk (strip ?root) (strip ?root) ?enc = Inr input"
    by (rule walk_encode [OF _ codes]) (simp add: root(3))
  then have "decompress (writeTree ?root @ [0x0A, of_nat (pad_count ?enc)] @ payload) = Inr input"
    by (simp add: decompress_def hdr pl drop_padding_padded pad_count_less)
  with art show ?thesis by blast
qed


section \<open>Inputs with one distinct byte value\<close>

lemma foldl_incr_same:
  "foldl (\<lambda>m c. incr c m) [(c, k)] (replicate n c) = [(c, k + of_nat n)]"
  by (induction n arbitrary: k) (simp_all add: add.assoc add.commute)

lemma freqMap_single: "freqMap (c # replicate n c) = [(c, 1 + of_nat n)]"
  by (simp add: freqMap_def foldl_incr_same)

lemma merge_loop_single: "merge_loop ties [t] = [t]"
  by (subst merge_loop.simps) simp

lemma huffman_tree_single:
  "huffman_tree ties (c # replicate n c) = Node c (1 + of_nat n) Null Null"
  by (simp add: huffman_tree_def initial_pq_def freqMap_single merge_loop_single pq_pop_single)

lemma code_table_single: "code_table ties (c # replicate n c) c = Some []"
  by (simp add: code_table_def huffman_tree_single)

lemma encode_single: "encode (code_table ties (c # replicate n c)) (replicate m c) = []"
  by (simp add: encode_def code_of_def code_table_single)

lemma pack_Nil: "pack [] = Inr []"
  by (subst pack.simps) simp

lemma compress_single: "compress ties (c # replicate n c) = Inr [0x31, c, 0x0A, 0]"
proof -
  have "encode (buildCode (huffman_tree ties (c # replicate n c)) [] Map.empty) (c # replicate n c) = []"
    using encode_single [of ties c n "Suc n"] by (simp add: code_table_def)
  then show ?thesis
    by (simp add: compress_def freqMap_single Let_def pad_count_def pack_Nil huffman_tree_single)
qed

lemma decompress_single: "decompress [0x31, c, 0x0A, 0] = Inr []"
  by (simp add: decompress_def read_header_def unpack_def drop_padding_def)

text \<open>
  Claim C2. On an input made of one byte value \<open>c\<close> repeated \<open>n + 1\<close> times, compress
  succeeds with the four bytes \<^verbatim>\<open>'1'\<close>, \<open>c\<close>, \<^verbatim>\<open>'\n'\<close>, 0; the code of \<open>c\<close> in the table is
  the empty string, not a code of one bit; and decompress returns the empty sequence from
  that artifact, not the input.
\<close>

theorem single_symbol_lost:
  "compress ties (replicate (Suc n) c) = Inr [0x31, c, 0x0A, 0]
   \<and> code_table ties (replicate (Suc n) c) c = Some []
   \<and> decompress [0x31, c, 0x0A, 0] = Inr []"
  by (simp add: compress_single code_table_single decompress_single)

text \<open>
  Claim C1. The round trip fails on the one-byte input \<^verbatim>\<open>"a"\<close>: compress returns an
  artifact from which decompress returns the empty sequence.
\<close>

theorem roundtrip_fails_on_a:
  "compress ties [0x61] = Inr [0x31, 0x61, 0x0A, 0]
   \<and> decompress [0x31, 0x61, 0x0A, 0] = Inr []
   \<and> decompress [0x31, 0x61, 0x0A, 0] \<noteq> Inr [0x61]"
  using compress_single [of ties "0x61" 0] decompress_single [of "0x61"] by simp

section \<open>The code table\<close>

lemma code_table_has_code:
  assumes "code_table ties input c = Some p"
  shows "has_code (huffman_tree ties input) p c"
  using buildCode_cases [of "huffman_tree ties input" "[]" Map.empty c] assms
  by (auto simp: code_table_def)

text \<open>
  Claim C8. No code of the table is a prefix of the code of another byte, for every
  input and every resolution of ties.
\<close>

theorem code_table_prefix_free:
  assumes "code_table ties input a = Some p" and "code_table ties input b = Some q"
    and "a \<noteq> b"
  shows "\<not> prefix p q"
proof
  assume "prefix p q"
  from has_code_prefix_free [OF code_table_has_code [OF assms(1)] code_table_has_code [OF assms(2)] this]
  have "a = b" by simp
  with assms(3) show False by simp
qed


theorem code_table_prefix_free_witness:
  "code_table [] [0x61, 0x61, 0x62] 0x61 = Some ''1''
   \<and> code_table [] [0x61, 0x61, 0x62] 0x62 = Some ''0''
   \<and> (0x61 :: byte) \<noteq> 0x62
   \<and> \<not> prefix ''1'' ''0''"
proof -
  have a: "code_table [] [0x61, 0x61, 0x62] 0x61 = Some ''1''" by code_simp
  have b: "code_table [] [0x61, 0x61, 0x62] 0x62 = Some ''0''" by code_simp
  have c: "(0x61 :: byte) \<noteq> 0x62" by simp
  from code_table_prefix_free [OF a b c] a b c show ?thesis by blast
qed

section \<open>The layout of the artifact\<close>

lemma length_unpack: "length (unpack payload) = 8 * length payload"
  by (induction payload) (simp_all add: unpack_def to_string_def)

text \<open>
  Claim C4, as amended. On a non-empty input compress returns: the bytes of \<open>writeTree\<close>
  (preorder; the byte 0x31 and the symbol for a leaf, the byte 0x30 for an inner node),
  then the newline byte 0x0A, then one byte with the pad count, which is at most 7, then
  the payload. The payload holds, eight bits to the byte and the first bit the most
  significant, the codes of the input bytes followed by as many 0 bits as the pad count says.
\<close>

theorem artifact_layout:
  assumes "input \<noteq> []"
  shows "\<exists>payload.
           compress ties input =
             Inr (writeTree (huffman_tree ties input) @ [0x0A] @
                  [of_nat (pad_count (encode (code_table ties input) input))] @ payload)
         \<and> pad_count (encode (code_table ties input) input) \<le> 7
         \<and> unpack payload =
             encode (code_table ties input) input @
             replicate (pad_count (encode (code_table ties input) input)) CHR ''0''
         \<and> 8 * length payload =
             length (encode (code_table ties input) input) +
             pad_count (encode (code_table ties input) input)"
proof -
  let ?enc = "encode (code_table ties input) input"
  from compress_artifact [OF assms, of ties] obtain payload
    where art: "compress ties input =
        Inr (writeTree (huffman_tree ties input) @ [0x0A, of_nat (pad_count ?enc)] @ payload)"
      and pl: "unpack payload = ?enc @ replicate (pad_count ?enc) CHR ''0''" by blast
  from pl have "length (unpack payload) = length ?enc + pad_count ?enc" by simp
  then have len: "8 * length payload = length ?enc + pad_count ?enc"
    by (simp add: length_unpack)
  have "pad_count ?enc \<le> 7" using pad_count_less [of ?enc] by simp
  with art pl len show ?thesis by auto
qed

theorem artifact_layout_witness:
  "[0x61, 0x61, 0x62 :: byte] \<noteq> []
   \<and> compress [] [0x61, 0x61, 0x62] = Inr ([0x30, 0x31, 0x62, 0x31, 0x61] @ [0x0A] @ [5] @ [0xC0])
   \<and> writeTree (huffman_tree [] [0x61, 0x61, 0x62]) = [0x30, 0x31, 0x62, 0x31, 0x61]
   \<and> pad_count (encode (code_table [] [0x61, 0x61, 0x62]) [0x61, 0x61, 0x62]) = 5
   \<and> encode (code_table [] [0x61, 0x61, 0x62]) [0x61, 0x61, 0x62] = ''110''
   \<and> (\<exists>payload. unpack payload = ''110'' @ replicate 5 CHR ''0'' \<and> 8 * length payload = 3 + 5)"
proof -
  have ne: "[0x61, 0x61, 0x62 :: byte] \<noteq> []" by simp
  have c: "compress [] [0x61, 0x61, 0x62] = Inr ([0x30, 0x31, 0x62, 0x31, 0x61] @ [0x0A] @ [5] @ [0xC0])"
    by code_simp
  have w: "writeTree (huffman_tree [] [0x61, 0x61, 0x62]) = [0x30, 0x31, 0x62, 0x31, 0x61]"
    by code_simp
  have e: "encode (code_table [] [0x61, 0x61, 0x62]) [0x61, 0x61, 0x62] = ''110''"
    by code_simp
  have p: "pad_count (encode (code_table [] [0x61, 0x61, 0x62]) [0x61, 0x61, 0x62]) = 5"
    by (simp add: e pad_count_def)
  from artifact_layout [OF ne, of "[]"] e p
  have "\<exists>payload. unpack payload = ''110'' @ replicate 5 CHR ''0'' \<and> 8 * length payload = 3 + 5"
    by auto
  with ne c w e p show ?thesis by blast
qed

text \<open>
  Claim C4, as stated, fails on the input \<^verbatim>\<open>"aab"\<close>: the artifact has eight bytes, one
  per shape mark and symbol and a newline after the tree; the layout of the claim has five.
\<close>

theorem layout_counterexample:
  "compress [] [0x61, 0x61, 0x62] = Inr [0x30, 0x31, 0x62, 0x31, 0x61, 0x0A, 5, 0xC0]
   \<and> spec_layout (huffman_tree [] [0x61, 0x61, 0x62]) 5 [0xC0] = Inr [0x58, 0xAC, 0x20, 5, 0xC0]
   \<and> compress [] [0x61, 0x61, 0x62] \<noteq> spec_layout (huffman_tree [] [0x61, 0x61, 0x62]) 5 [0xC0]"
proof -
  have c: "compress [] [0x61, 0x61, 0x62] = Inr [0x30, 0x31, 0x62, 0x31, 0x61, 0x0A, 5, 0xC0]"
    by code_simp
  have s: "spec_layout (huffman_tree [] [0x61, 0x61, 0x62]) 5 [0xC0] = Inr [0x58, 0xAC, 0x20, 5, 0xC0]"
    by code_simp
  show ?thesis by (simp add: c s)
qed

section \<open>Truncated trees\<close>

text \<open>
  Claim C9. On the three bytes \<^verbatim>\<open>'0' '1' 'a'\<close> the source of \<open>readTree\<close> is used up
  before the right child of the root is read: \<open>readTree\<close> returns the root with its left
  leaf and \<^verbatim>\<open>nullptr\<close> as right child, not \<^verbatim>\<open>nullptr\<close>, so decompress does not report
  the tree error; it fails at the next read, with the error of the missing pad count.
  On the single byte \<^verbatim>\<open>'0'\<close> the node returned has no child at all and reads as a leaf.
\<close>

theorem readTree_partial_tree:
  "readTree [0x30, 0x31, 0x61] = (Node 0 0 (Node 0x61 0 Null Null) Null, [])
   \<and> read_header [0x30, 0x31, 0x61] = Inl TruncatedStreamError
   \<and> decompress [0x30, 0x31, 0x61] = Inl TruncatedStreamError
   \<and> readTree [0x30] = (Node 0 0 Null Null, [])"
  by (simp add: decompress_def read_header_def)

text \<open>
  What does hold: when \<open>readTree\<close> has used up the stream, decompress fails, with one of
  its two errors.
\<close>

lemma truncated_tree_rejected:
  assumes "snd (readTree s) = []"
  shows "decompress s = Inl TruncatedTreeError \<or> decompress s = Inl TruncatedStreamError"
proof -
  obtain root s1 where r: "readTree s = (root, s1)" by (cases "readTree s")
  with assms have "s1 = []" by simp
  with r show ?thesis by (simp add: decompress_def read_header_def)
qed

section \<open>The pad count read by decompress\<close>

lemma walk_total:
  assumes "full root" and "\<not> is_leaf root" and "full current" and "\<not> is_leaf current"
  shows "\<exists>out. walk root current bits = Inr out"
  using assms(3,4)
proof (induction bits arbitrary: current)
  case Nil
  then show ?case by simp
next
  case (Cons b bits)
  from Cons.prems obtain a f l r where cur: "current = Node a f l r"
    and fl: "full l" and fr: "full r" and inner: "\<not> (l = Null \<and> r = Null)"
    by (cases current) auto
  show ?case
  proof (cases "b = CHR ''0'' \<or> b = CHR ''1''")
    case False
    with Cons.IH [OF Cons.prems] show ?thesis by simp
  next
    case True
    let ?next = "if b = CHR ''0'' then l else r"
    from fl fr have fn: "full ?next" by simp
    then obtain a' f' l' r' where nxt: "?next = Node a' f' l' r'" by (cases ?next) auto
    show ?thesis
    proof (cases "l' = Null \<and> r' = Null")
      case leaf: True
      from Cons.IH [OF assms(1,2)] obtain out where "walk root root bits = Inr out" by blast
      with True cur nxt leaf show ?thesis by auto
    next
      case inner': False
      with nxt have "\<not> is_leaf ?next" by simp
      from Cons.IH [OF fn this] obtain out where "walk root ?next bits = Inr out" by blast
      with True cur nxt inner' show ?thesis by auto
    qed
  qed
qed

lemma decompress_written:
  assumes "full t"
  shows "decompress (writeTree t @ 0x0A # e # payload) =
           walk (strip t) (strip t) (drop_padding (unat e) (unpack payload))"
  by (simp add: decompress_def read_header_written [OF assms])

lemma to_string_head: "\<exists>b bs. to_string p = b # bs \<and> (b = CHR ''0'' \<or> b = CHR ''1'')"
  by (simp add: to_string_def)

lemma walk_leaf_root:
  assumes "is_leaf t" and "payload \<noteq> []"
  shows "walk (strip t) (strip t) (unpack payload) = Inl NullDereference"
proof -
  from assms(1) obtain c f where t: "t = Node c f Null Null" by (cases t) auto
  from assms(2) obtain p ps where pl: "payload = p # ps" by (cases payload) auto
  from to_string_head [of p] obtain b bs
    where b: "to_string p = b # bs" "b = CHR ''0'' \<or> b = CHR ''1''" by blast
  have "unpack payload = b # (bs @ unpack ps)" by (simp add: pl unpack_def b(1))
  with b(2) t show ?thesis by auto
qed

text \<open>
  Claim C7, as amended. After a well-formed tree \<open>t\<close> and the newline, decompress reads the
  pad count \<open>e\<close> and the payload. With a pad count from 1 to 7 that does not exceed the
  number of bits, the last bits are dropped and the rest is decoded. With a pad count
  above 8, or above the number of bits, nothing is dropped and the pad count is not
  reported: decompress goes on to the tree walk over all the bits of the payload. That
  walk ends with an output when the root of \<open>t\<close> is an inner node, and also when the
  payload is empty; when \<open>t\<close> is a single leaf and the payload is not empty it is the null
  dereference on which the program crashes.
\<close>

theorem pad_count_guard:
  assumes "full t"
  shows "(1 \<le> unat e \<and> unat e \<le> 7 \<and> unat e \<le> 8 * length payload \<longrightarrow>
            decompress (writeTree t @ 0x0A # e # payload) =
              walk (strip t) (strip t) (take (8 * length payload - unat e) (unpack payload)))
       \<and> (8 < unat e \<or> 8 * length payload < unat e \<longrightarrow>
            decompress (writeTree t @ 0x0A # e # payload) =
              walk (strip t) (strip t) (unpack payload)
          \<and> (\<not> is_leaf t \<longrightarrow> (\<exists>out. decompress (writeTree t @ 0x0A # e # payload) = Inr out))
          \<and> (is_leaf t \<longrightarrow>
                decompress (writeTree t @ 0x0A # e # payload) =
                  (if payload = [] then Inr [] else Inl NullDereference)))"
proof -
  have d: "decompress (writeTree t @ 0x0A # e # payload) =
           walk (strip t) (strip t) (drop_padding (unat e) (unpack payload))"
    by (rule decompress_written [OF assms])
  have in_range: "drop_padding (unat e) (unpack payload) =
      take (8 * length payload - unat e) (unpack payload)"
    if "1 \<le> unat e \<and> unat e \<le> 7 \<and> unat e \<le> 8 * length payload"
    using that by (simp add: drop_padding_def length_unpack)
  have out_of_range: "drop_padding (unat e) (unpack payload) = unpack payload"
    if "8 < unat e \<or> 8 * length payload < unat e"
    using that by (auto simp: drop_padding_def length_unpack)
  have total: "\<exists>out. walk (strip t) (strip t) (unpack payload) = Inr out" if "\<not> is_leaf t"
    by (rule walk_total) (simp_all add: assms that)
  have leaf: "walk (strip t) (strip t) (unpack payload) =
      (if payload = [] then Inr [] else Inl NullDereference)" if "is_leaf t"
  proof (cases "payload = []")
    case True
    then show ?thesis by (simp add: unpack_def)
  next
    case False
    with walk_leaf_root [OF that False] show ?thesis by simp
  qed
  from d in_range out_of_range total leaf show ?thesis by simp
qed

theorem pad_count_guard_witness:
  "full (Node 0 0 (Node 0x61 0 Null Null) (Node 0x62 0 Null Null))
   \<and> decompress [0x30, 0x31, 0x61, 0x31, 0x62, 0x0A, 3, 0] = Inr [0x61, 0x61, 0x61, 0x61, 0x61]
   \<and> decompress [0x30, 0x31, 0x61, 0x31, 0x62, 0x0A, 9, 0]
       = Inr [0x61, 0x61, 0x61, 0x61, 0x61, 0x61, 0x61, 0x61]
   \<and> decompress [0x30, 0x31, 0x61, 0x31, 0x62, 0x0A, 3] = Inr []
   \<and> full (Node 0x61 0 Null Null) \<and> is_leaf (Node 0x61 0 Null Null)
   \<and> decompress [0x31, 0x61, 0x0A, 9, 0] = Inl NullDereference
   \<and> decompress [0x31, 0x61, 0x0A, 9] = Inr []"
proof -
  let ?t = "Node 0 0 (Node 0x61 0 Null Null) (Node 0x62 0 Null Null)"
  let ?l = "Node 0x61 0 Null Null"
  have f: "full ?t" by simp
  have fl: "full ?l" and il: "is_leaf ?l" by simp_all
  have w3: "walk (strip ?t) (strip ?t) (take (8 * length [0::byte] - unat (3::byte)) (unpack [0]))
      = Inr [0x61, 0x61, 0x61, 0x61, 0x61]"
    by (simp add: unpack_def to_string_def)
  have w9: "walk (strip ?t) (strip ?t) (unpack [0]) = Inr [0x61, 0x61, 0x61, 0x61, 0x61, 0x61, 0x61, 0x61]"
    by (simp add: unpack_def to_string_def)
  have w0: "walk (strip ?t) (strip ?t) (unpack []) = Inr []"
    by (simp add: unpack_def)
  from pad_count_guard [OF f, of 3 "[0]"] w3
  have a: "decompress [0x30, 0x31, 0x61, 0x31, 0x62, 0x0A, 3, 0] = Inr [0x61, 0x61, 0x61, 0x61, 0x61]"
    by simp
  from pad_count_guard [OF f, of 9 "[0]"] w9
  have b: "decompress [0x30, 0x31, 0x61, 0x31, 0x62, 0x0A, 9, 0]
       = Inr [0x61, 0x61, 0x61, 0x61, 0x61, 0x61, 0x61, 0x61]"
    by simp
  from pad_count_guard [OF f, of 3 "[]"] w0
  have c: "decompress [0x30, 0x31, 0x61, 0x31, 0x62, 0x0A, 3] = Inr []"
    by simp
  from pad_count_guard [OF fl, of 9 "[0]"]
  have d: "decompress [0x31, 0x61, 0x0A, 9, 0] = Inl NullDereference"
    by auto
  from pad_count_guard [OF fl, of 9 "[]"]
  have e: "decompress [0x31, 0x61, 0x0A, 9] = Inr []"
    by auto
  from f a b c fl il d e show ?thesis by blast
qed

text \<open>
  Claim C7, as stated, fails: with the pad count 9 (above 7) and with the pad count 3 on
  an empty payload (above the number of bits) decompress returns an output and no error.
\<close>

theorem pad_count_counterexample:
  "decompress [0x30, 0x31, 0x61, 0x31, 0x62, 0x0A, 9, 0]
     = Inr [0x61, 0x61, 0x61, 0x61, 0x61, 0x61, 0x61, 0x61]
   \<and> decompress [0x30, 0x31, 0x61, 0x31, 0x62, 0x0A, 3] = Inr []"
  by code_simp


section \<open>A payload cut short\<close>

lemma encode_Cons: "encode hc (c # input) = code_of hc c @ encode hc input"
  by (simp add: encode_def)

lemma walk_encode_take:
  assumes "\<not> is_leaf t" and "\<forall>c \<in> set input. has_code t (code_of hc c) c"
  shows "\<exists>out. walk t t (take m (encode hc input)) = Inr out \<and> prefix out input
           \<and> length (encode hc out) \<le> m"
  using assms(2)
proof (induction input arbitrary: m)
  case Nil
  have "walk t t (take m (encode hc [])) = Inr [] \<and> prefix [] ([] :: byte list)
          \<and> length (encode hc []) \<le> m"
    by (simp add: encode_def)
  then show ?case by blast
next
  case (Cons c input)
  let ?code = "code_of hc c"
  from Cons.prems have hc: "has_code t ?code c"
    and rest: "\<forall>c \<in> set input. has_code t (code_of hc c) c" by simp_all
  show ?case
  proof (cases "m < length ?code")
    case True
    then have "take m (encode hc (c # input)) = take m ?code"
      by (simp add: encode_Cons)
    then have "walk t t (take m (encode hc (c # input))) = Inr []"
      using walk_partial [OF hc True, of t] by (simp only:)
    moreover have "prefix [] (c # input)" by simp
    moreover have "length (encode hc []) \<le> m" by (simp add: encode_def)
    ultimately show ?thesis by blast
  next
    case False
    from Cons.IH [OF rest, of "m - length ?code"] obtain out
      where out: "walk t t (take (m - length ?code) (encode hc input)) = Inr out"
        "prefix out input" "length (encode hc out) \<le> m - length ?code" by blast
    from False have "take m (encode hc (c # input)) = ?code @ take (m - length ?code) (encode hc input)"
      by (simp add: encode_Cons)
    with walk_code [OF hc assms(1), of t "take (m - length ?code) (encode hc input)"] out(1)
    have "walk t t (take m (encode hc (c # input))) = Inr (c # out)" by simp
    moreover from out(2) have "prefix (c # out) (c # input)" by simp
    moreover from out(3) False have "length (encode hc (c # out)) \<le> m"
      by (simp add: encode_Cons)
    ultimately show ?thesis by blast
  qed
qed

lemma unpack_butlast:
  "unpack (butlast payload) = take (length (unpack payload) - 8) (unpack payload)"
proof (cases payload rule: rev_cases)
  case Nil
  then show ?thesis by (simp add: unpack_def)
next
  case (snoc bs b)
  have "length (to_string b) = 8" by (simp add: to_string_def)
  then show ?thesis using snoc by (simp add: unpack_def)
qed

lemma has_code_inner: "has_code t p c \<Longrightarrow> \<not> is_leaf t \<Longrightarrow> p \<noteq> []"
  by (cases t) auto

lemma encode_nonempty:
  assumes "input \<noteq> []" and "\<not> is_leaf t" and "\<forall>c \<in> set input. has_code t (code_of hc c) c"
  shows "encode hc input \<noteq> []"
proof -
  from assms(1) obtain c rest where i: "input = c # rest" by (cases input) auto
  with assms(3) have "has_code t (code_of hc c) c" by simp
  from has_code_inner [OF this assms(2)] i show ?thesis by (simp add: encode_Cons)
qed

lemma truncated_bits:
  assumes "unpack payload = encoded @ replicate n c" and "n < 8" and "encoded \<noteq> []"
  shows "\<exists>m < length encoded. drop_padding n (unpack (butlast payload)) = take m encoded"
proof -
  let ?L = "length encoded"
  have len: "length (unpack payload) = ?L + n" using assms(1) by simp
  have ub: "unpack (butlast payload) = take (?L + n - 8) (encoded @ replicate n c)"
    by (simp add: unpack_butlast len assms(1))
  have Lpos: "0 < ?L" using assms(3) by simp
  show ?thesis
  proof (cases "0 < n \<and> n \<le> ?L + n - 8")
    case True
    then have "drop_padding n (unpack (butlast payload)) = take (?L - 8) encoded"
      using assms(2) by (simp add: drop_padding_def ub min_def)
    moreover from True Lpos have "?L - 8 < ?L" by simp
    ultimately show ?thesis by blast
  next
    case False
    then have dp: "drop_padding n (unpack (butlast payload)) = take (?L + n - 8) (encoded @ replicate n c)"
      using assms(2) by (auto simp: drop_padding_def ub)
    from False consider "n = 0" | "?L + n - 8 < n" by linarith
    then show ?thesis
    proof cases
      case 1
      with dp have "drop_padding n (unpack (butlast payload)) = take (?L - 8) encoded" by simp
      moreover from Lpos have "?L - 8 < ?L" by simp
      ultimately show ?thesis by blast
    next
      case 2
      with assms(2) Lpos have lt: "?L + n - 8 < ?L" by linarith
      with dp have "drop_padding n (unpack (butlast payload)) = take (?L + n - 8) encoded" by simp
      with lt show ?thesis by blast
    qed
  qed
qed

text \<open>
  Claim C6, as amended. When the input has at least two distinct byte values, the
  artifact of compress without its last byte, which is the last byte of the payload, is
  accepted by decompress: the result is an output, and it is a proper prefix of the input.
\<close>

theorem truncated_payload_accepted:
  assumes "1 < card (set input)" and "compress ties input = Inr artifact"
  shows "\<exists>out. decompress (butlast artifact) = Inr out \<and> strict_prefix out input"
proof -
  let ?root = "huffman_tree ties input"
  let ?hc = "code_table ties input"
  let ?enc = "encode ?hc input"
  from assms(1) have ne: "input \<noteq> []" by auto
  from huffman_tree_inv [OF ne, of ties] assms(1)
  have root: "full ?root" "leaves ?root = set input" "\<not> is_leaf ?root" by auto
  have inner: "\<not> is_leaf (strip ?root)" by (simp add: root(3))
  have codes: "\<forall>c \<in> set input. has_code (strip ?root) (code_of ?hc c) c"
    using root(2) by (auto simp: code_table_def intro: code_of_leaf)
  from compress_artifact [OF ne, of ties] assms(2) obtain payload
    where art: "artifact = writeTree ?root @ [0x0A, of_nat (pad_count ?enc)] @ payload"
      and pl: "unpack payload = ?enc @ replicate (pad_count ?enc) CHR ''0''" by auto
  have enc_ne: "?enc \<noteq> []" by (rule encode_nonempty [OF ne inner codes])
  with pl have "unpack payload \<noteq> []" by simp
  then have pne: "payload \<noteq> []" by (auto simp: unpack_def)
  with art have cut: "butlast artifact = writeTree ?root @ 0x0A # of_nat (pad_count ?enc) # butlast payload"
    by (simp add: butlast_append)
  from truncated_bits [OF pl pad_count_less enc_ne] obtain m
    where m: "m < length ?enc" "drop_padding (pad_count ?enc) (unpack (butlast payload)) = take m ?enc"
    by blast
  from walk_encode_take [OF inner codes, of m] obtain out
    where out: "walk (strip ?root) (strip ?root) (take m ?enc) = Inr out" "prefix out input"
      "length (encode ?hc out) \<le> m" by blast
  have "decompress (butlast artifact) = Inr out"
    by (simp add: cut decompress_written [OF root(1)] unat_pad pad_count_less m(2) out(1))
  moreover have "out \<noteq> input" using out(3) m(1) by auto
  ultimately show ?thesis using out(2) by (auto simp: strict_prefix_def)
qed

theorem truncated_payload_accepted_witness:
  "1 < card (set [0x61, 0x61, 0x62, 0x61, 0x61, 0x61, 0x61, 0x61, 0x61, 0x61 :: byte])
   \<and> compress [] [0x61, 0x61, 0x62, 0x61, 0x61, 0x61, 0x61, 0x61, 0x61, 0x61]
       = Inr [0x30, 0x31, 0x62, 0x31, 0x61, 0x0A, 6, 0xDF, 0xC0]
   \<and> (\<exists>out. decompress (butlast [0x30, 0x31, 0x62, 0x31, 0x61, 0x0A, 6, 0xDF, 0xC0]) = Inr out
         \<and> strict_prefix out [0x61, 0x61, 0x62, 0x61, 0x61, 0x61, 0x61, 0x61, 0x61, 0x61])"
proof -
  have s: "set [0x61, 0x61, 0x62, 0x61, 0x61, 0x61, 0x61, 0x61, 0x61, 0x61 :: byte] = {0x61, 0x62}"
    by auto
  have "card {0x61, 0x62 :: byte} = 2" by simp
  then have c: "1 < card (set [0x61, 0x61, 0x62, 0x61, 0x61, 0x61, 0x61, 0x61, 0x61, 0x61 :: byte])"
    by (simp only: s)
  have a: "compress [] [0x61, 0x61, 0x62, 0x61, 0x61, 0x61, 0x61, 0x61, 0x61, 0x61]
       = Inr [0x30, 0x31, 0x62, 0x31, 0x61, 0x0A, 6, 0xDF, 0xC0]"
    by code_simp
  from truncated_payload_accepted [OF c a] c a show ?thesis by blast
qed

text \<open>
  Claim C6, as stated, fails on the input \<^verbatim>\<open>"aabaaaaaaa"\<close>: without the last byte of
  its payload the artifact decodes to \<^verbatim>\<open>"aa"\<close>, and decompress reports no error.
\<close>

theorem truncated_payload_counterexample:
  "compress [] [0x61, 0x61, 0x62, 0x61, 0x61, 0x61, 0x61, 0x61, 0x61, 0x61]
     = Inr [0x30, 0x31, 0x62, 0x31, 0x61, 0x0A, 6, 0xDF, 0xC0]
   \<and> decompress (butlast [0x30, 0x31, 0x62, 0x31, 0x61, 0x0A, 6, 0xDF, 0xC0]) = Inr [0x61, 0x61]"
  by code_simp


section \<open>Ties in the queue\<close>

lemma splits_map_fst: "map fst (splits pq) = pq"
  by (induction pq) (simp_all add: case_prod_unfold o_def)

lemma distinct_constant:
  "distinct (map f xs) \<Longrightarrow> \<forall>x \<in> set xs. f x = v \<Longrightarrow> length xs \<le> 1"
  by (cases xs) (auto simp: image_iff)

lemma candidates_in_queue:
  assumes "p \<in> set (candidates pq)"
  shows "fst p \<in> set pq \<and> (\<forall>b \<in> set pq. \<not> Compare (fst p) b)"
proof -
  from assms have "p \<in> set (splits pq)" by (simp add: candidates_def)
  then have "fst p \<in> fst ` set (splits pq)" by (rule imageI)
  then have "fst p \<in> set pq" by (simp only: splits_fst)
  moreover from assms have "\<forall>b \<in> set pq. \<not> Compare (fst p) b"
    by (simp add: candidates_def list_all_iff case_prod_unfold)
  ultimately show ?thesis by simp
qed

lemma candidates_same_weight:
  assumes "p \<in> set (candidates pq)" and "q \<in> set (candidates pq)"
  shows "freq (fst p) = freq (fst q)"
proof -
  from candidates_in_queue [OF assms(1)] candidates_in_queue [OF assms(2)]
  have "\<not> Compare (fst p) (fst q)" and "\<not> Compare (fst q) (fst p)" by simp_all
  then have "sint (freq (fst p)) = sint (freq (fst q))"
    by (simp add: Compare_def)
  then show ?thesis by (rule signed_word_eqI)
qed

lemma candidates_single:
  assumes "distinct (map freq pq)" and "pq \<noteq> []"
  shows "length (candidates pq) = 1"
proof -
  let ?f = "\<lambda>p. freq (fst p)"
  have "map ?f (splits pq) = map freq (map fst (splits pq))" by (simp add: o_def)
  also have "\<dots> = map freq pq" by (simp only: splits_map_fst)
  finally have "distinct (map ?f (splits pq))" using assms(1) by simp
  then have d: "distinct (map ?f (candidates pq))"
    unfolding candidates_def by (rule distinct_map_filter)
  from candidates_nonempty [OF assms(2)] obtain p ps where c: "candidates pq = p # ps"
    by (cases "candidates pq") auto
  have "\<forall>q \<in> set (candidates pq). ?f q = freq (fst p)"
  proof
    fix q assume "q \<in> set (candidates pq)"
    moreover have "p \<in> set (candidates pq)" by (simp add: c)
    ultimately show "?f q = freq (fst p)" by (rule candidates_same_weight)
  qed
  from distinct_constant [OF d this] c show ?thesis by simp
qed

lemma pq_pop_no_tie:
  assumes "distinct (map freq pq)" and "pq \<noteq> []"
  shows "pq_pop k pq = pq_pop 0 pq"
  by (simp add: pq_pop_def candidates_single [OF assms])

lemma pq_pop_distinct:
  assumes "distinct (map freq pq)" and "pq \<noteq> []" and "pq_pop k pq = (a, rest)"
  shows "distinct (map freq rest)"
proof -
  from pq_pop_decomp [OF assms(2,3)] obtain ys zs where "pq = ys @ a # zs" "rest = ys @ zs"
    by blast
  with assms(1) show ?thesis by auto
qed

lemma merge_step_no_tie:
  assumes "distinct (map freq pq)" and "1 < length pq"
  shows "merge_step k1 k2 pq = merge_step 0 0 pq"
proof -
  from assms(2) have ne: "pq \<noteq> []" by auto
  obtain l pq1 where p1: "pq_pop 0 pq = (l, pq1)" by (cases "pq_pop 0 pq")
  from pq_pop_decomp [OF ne p1] assms(2) have ne1: "pq1 \<noteq> []" by auto
  from pq_pop_distinct [OF assms(1) ne p1] have d1: "distinct (map freq pq1)" .
  have "pq_pop k1 pq = (l, pq1)" using pq_pop_no_tie [OF assms(1) ne, of k1] p1 by simp
  moreover have "pq_pop k2 pq1 = pq_pop 0 pq1" by (rule pq_pop_no_tie [OF d1 ne1])
  ultimately show ?thesis by (simp add: merge_step_def p1)
qed

lemma merge_loop_no_tie: "tie_free pq \<Longrightarrow> merge_loop ties pq = merge_loop [] pq"
proof (induction pq arbitrary: ties rule: tie_free.induct)
  case (1 pq)
  show ?case
  proof (cases "1 < length pq")
    case False
    then show ?thesis by (simp add: merge_loop.simps [of ties pq] merge_loop.simps [of "[]" pq])
  next
    case True
    with "1.prems" have d: "distinct (map freq pq)" and tf: "tie_free (merge_step 0 0 pq)"
      by (simp_all add: tie_free.simps [of pq])
    have "merge_loop ties pq = merge_loop (drop 2 ties) (merge_step 0 0 pq)"
      using True merge_step_no_tie [OF d True, of "tie ties 0" "tie ties 1"]
      by (simp add: merge_loop.simps [of ties pq])
    also have "\<dots> = merge_loop [] (merge_step 0 0 pq)"
      by (rule "1.IH" [OF True tf])
    also have "\<dots> = merge_loop [] pq"
      using True merge_step_no_tie [OF d True, of "tie [] 0" "tie [] 1"]
      by (simp add: merge_loop.simps [of "[]" pq])
    finally show ?thesis .
  qed
qed

text \<open>
  Where no two nodes of equal weight are ever in the queue together, the artifact does
  not depend on which candidate the queue returns.
\<close>

lemma compress_tie_free:
  assumes "tie_free (initial_pq input)"
  shows "compress ties1 input = compress ties2 input"
proof -
  have "huffman_tree ties1 input = huffman_tree ties2 input"
    using merge_loop_no_tie [OF assms, of ties1] merge_loop_no_tie [OF assms, of ties2]
    by (simp add: huffman_tree_def)
  then show ?thesis by (simp add: compress_def)
qed

section \<open>Repeated calls and the order of the queue\<close>










section \<open>The frame between the tree and the pad count\<close>

lemma read_header_no_newline:
  assumes "full t" and "b \<noteq> 0x0A"
  shows "read_header (writeTree t @ b # rest) = Inr (strip t, unat b, rest)"
proof -
  from assms(1) have "t \<noteq> Null" by auto
  with readTree_writeTree [OF assms(1), of "b # rest"] assms(2) show ?thesis
    by (simp add: read_header_def)
qed

lemma read_header_nothing_after:
  assumes "full t"
  shows "read_header (writeTree t) = Inl TruncatedStreamError"
proof -
  from assms have "t \<noteq> Null" by auto
  with readTree_writeTree [OF assms, of "[]"] show ?thesis
    by (simp add: read_header_def)
qed

text \<open>
  Claim C10. compress writes the newline byte 0x0A after the tree and before the pad
  count: on the artifact of a non-empty input \<open>readTree\<close> stops at the newline,
  \<open>read_header\<close> returns as pad count and payload what compress wrote, and decompress
  decodes that payload with that pad count. After any well-formed tree \<open>t\<close>, the header
  read by decompress takes one byte away at that place if and only if the byte is 0x0A:
  after a newline the next byte \<open>e\<close> is the pad count, whatever it is, a second newline
  included; a byte \<open>b\<close> other than the newline is itself the pad count and nothing is
  taken away; with no byte there, decompress reports the missing pad count.
\<close>

theorem framing_consistent:
  assumes "input \<noteq> []" and "full t" and "b \<noteq> 0x0A"
  shows "(\<exists>payload.
            compress ties input =
              Inr (writeTree (huffman_tree ties input) @ [0x0A] @
                   [of_nat (pad_count (encode (code_table ties input) input))] @ payload)
          \<and> readTree (writeTree (huffman_tree ties input) @ [0x0A] @
                   [of_nat (pad_count (encode (code_table ties input) input))] @ payload)
              = (strip (huffman_tree ties input),
                 [0x0A] @ [of_nat (pad_count (encode (code_table ties input) input))] @ payload)
          \<and> read_header (writeTree (huffman_tree ties input) @ [0x0A] @
                   [of_nat (pad_count (encode (code_table ties input) input))] @ payload)
              = Inr (strip (huffman_tree ties input),
                     pad_count (encode (code_table ties input) input), payload)
          \<and> decompress (writeTree (huffman_tree ties input) @ [0x0A] @
                   [of_nat (pad_count (encode (code_table ties input) input))] @ payload)
              = walk (strip (huffman_tree ties input)) (strip (huffman_tree ties input))
                  (drop_padding (pad_count (encode (code_table ties input) input))
                     (unpack payload)))
       \<and> read_header (writeTree t @ 0x0A # e # rest) = Inr (strip t, unat e, rest)
       \<and> decompress (writeTree t @ 0x0A # e # rest)
           = walk (strip t) (strip t) (drop_padding (unat e) (unpack rest))
       \<and> read_header (writeTree t @ b # rest) = Inr (strip t, unat b, rest)
       \<and> decompress (writeTree t @ b # rest)
           = walk (strip t) (strip t) (drop_padding (unat b) (unpack rest))
       \<and> read_header (writeTree t) = Inl TruncatedStreamError
       \<and> decompress (writeTree t) = Inl TruncatedStreamError"
proof -
  let ?root = "huffman_tree ties input"
  let ?enc = "encode (code_table ties input) input"
  from huffman_tree_inv [OF assms(1), of ties] have full: "full ?root" by simp
  from compress_artifact [OF assms(1), of ties] obtain payload
    where art: "compress ties input =
        Inr (writeTree ?root @ [0x0A, of_nat (pad_count ?enc)] @ payload)" by blast
  have rt: "readTree (writeTree ?root @ [0x0A] @ [of_nat (pad_count ?enc)] @ payload)
      = (strip ?root, [0x0A] @ [of_nat (pad_count ?enc)] @ payload)"
    by (rule readTree_writeTree [OF full])
  have hdr: "read_header (writeTree ?root @ [0x0A] @ [of_nat (pad_count ?enc)] @ payload)
      = Inr (strip ?root, pad_count ?enc, payload)"
    using read_header_written [OF full, of "of_nat (pad_count ?enc)" payload]
    by (simp add: unat_pad pad_count_less)
  have dec: "decompress (writeTree ?root @ [0x0A] @ [of_nat (pad_count ?enc)] @ payload)
      = walk (strip ?root) (strip ?root) (drop_padding (pad_count ?enc) (unpack payload))"
    using decompress_written [OF full, of "of_nat (pad_count ?enc)" payload]
    by (simp add: unat_pad pad_count_less)
  from art rt hdr dec have own: "\<exists>payload.
            compress ties input =
              Inr (writeTree ?root @ [0x0A] @ [of_nat (pad_count ?enc)] @ payload)
          \<and> readTree (writeTree ?root @ [0x0A] @ [of_nat (pad_count ?enc)] @ payload)
              = (strip ?root, [0x0A] @ [of_nat (pad_count ?enc)] @ payload)
          \<and> read_header (writeTree ?root @ [0x0A] @ [of_nat (pad_count ?enc)] @ payload)
              = Inr (strip ?root, pad_count ?enc, payload)
          \<and> decompress (writeTree ?root @ [0x0A] @ [of_nat (pad_count ?enc)] @ payload)
              = walk (strip ?root) (strip ?root) (drop_padding (pad_count ?enc) (unpack payload))"
    by auto
  have h1: "read_header (writeTree t @ 0x0A # e # rest) = Inr (strip t, unat e, rest)"
    by (rule read_header_written [OF assms(2)])
  have d1: "decompress (writeTree t @ 0x0A # e # rest)
           = walk (strip t) (strip t) (drop_padding (unat e) (unpack rest))"
    by (rule decompress_written [OF assms(2)])
  have h2: "read_header (writeTree t @ b # rest) = Inr (strip t, unat b, rest)"
    by (rule read_header_no_newline [OF assms(2,3)])
  have d2: "decompress (writeTree t @ b # rest)
           = walk (strip t) (strip t) (drop_padding (unat b) (unpack rest))"
    by (simp add: decompress_def h2)
  have h3: "read_header (writeTree t) = Inl TruncatedStreamError"
    by (rule read_header_nothing_after [OF assms(2)])
  have d3: "decompress (writeTree t) = Inl TruncatedStreamError"
    by (simp add: decompress_def h3)
  from own h1 d1 h2 d2 h3 d3 show ?thesis by blast
qed

theorem framing_consistent_witness:
  "[0x61, 0x61, 0x62 :: byte] \<noteq> []
   \<and> full (Node 0 0 (Node 0x61 0 Null Null) (Node 0x62 0 Null Null))
   \<and> (3 :: byte) \<noteq> 0x0A
   \<and> compress [] [0x61, 0x61, 0x62] = Inr ([0x30, 0x31, 0x62, 0x31, 0x61] @ [0x0A] @ [5] @ [0xC0])
   \<and> read_header ([0x30, 0x31, 0x62, 0x31, 0x61] @ [0x0A] @ [5] @ [0xC0])
       = Inr (Node 0 0 (Node 0x62 0 Null Null) (Node 0x61 0 Null Null), 5, [0xC0])
   \<and> decompress ([0x30, 0x31, 0x62, 0x31, 0x61] @ [0x0A] @ [5] @ [0xC0]) = Inr [0x61, 0x61, 0x62]
   \<and> read_header [0x30, 0x31, 0x61, 0x31, 0x62, 0x0A, 3, 0]
       = Inr (Node 0 0 (Node 0x61 0 Null Null) (Node 0x62 0 Null Null), 3, [0])
   \<and> read_header [0x30, 0x31, 0x61, 0x31, 0x62, 3, 0]
       = Inr (Node 0 0 (Node 0x61 0 Null Null) (Node 0x62 0 Null Null), 3, [0])
   \<and> decompress [0x30, 0x31, 0x61, 0x31, 0x62, 3, 0] = Inr [0x61, 0x61, 0x61, 0x61, 0x61]
   \<and> read_header [0x30, 0x31, 0x61, 0x31, 0x62, 0x0A, 0x0A, 0]
       = Inr (Node 0 0 (Node 0x61 0 Null Null) (Node 0x62 0 Null Null), 10, [0])
   \<and> decompress [0x30, 0x31, 0x61, 0x31, 0x62] = Inl TruncatedStreamError"
proof -
  let ?t = "Node 0 0 (Node 0x61 0 Null Null) (Node 0x62 0 Null Null)"
  have ne: "[0x61, 0x61, 0x62 :: byte] \<noteq> []" by simp
  have f: "full ?t" by simp
  have b: "(3 :: byte) \<noteq> 0x0A" by simp
  note t3 = framing_consistent [OF ne f b, of "[]" 3 "[0]"]
  note t10 = framing_consistent [OF ne f b, of "[]" "0x0A" "[0]"]
  have c: "compress [] [0x61, 0x61, 0x62] = Inr ([0x30, 0x31, 0x62, 0x31, 0x61] @ [0x0A] @ [5] @ [0xC0])"
    by code_simp
  have h: "read_header ([0x30, 0x31, 0x62, 0x31, 0x61] @ [0x0A] @ [5] @ [0xC0])
       = Inr (Node 0 0 (Node 0x62 0 Null Null) (Node 0x61 0 Null Null), 5, [0xC0])"
    by code_simp
  have d: "decompress ([0x30, 0x31, 0x62, 0x31, 0x61] @ [0x0A] @ [5] @ [0xC0]) = Inr [0x61, 0x61, 0x62]"
    by code_simp
  have w: "walk (strip ?t) (strip ?t) (drop_padding (unat (3 :: byte)) (unpack [0]))
      = Inr [0x61, 0x61, 0x61, 0x61, 0x61]"
    by (simp add: unpack_def to_string_def drop_padding_def)
  from t3 have h1: "read_header [0x30, 0x31, 0x61, 0x31, 0x62, 0x0A, 3, 0] = Inr (?t, 3, [0])"
    by simp
  from t3 have h2: "read_header [0x30, 0x31, 0x61, 0x31, 0x62, 3, 0] = Inr (?t, 3, [0])"
    by simp
  from t3 w have d2: "decompress [0x30, 0x31, 0x61, 0x31, 0x62, 3, 0] = Inr [0x61, 0x61, 0x61, 0x61, 0x61]"
    by simp
  from t10 have h3: "read_header [0x30, 0x31, 0x61, 0x31, 0x62, 0x0A, 0x0A, 0] = Inr (?t, 10, [0])"
    by simp
  from t3 have d3: "decompress [0x30, 0x31, 0x61, 0x31, 0x62] = Inl TruncatedStreamError"
    by simp
  from ne f b c h d h1 h2 d2 h3 d3 show ?thesis by blast
qed

end
